theory Spec2Isabelle
  imports Main
begin

section \<open>The coordination core of script.js: event bus, state store, analytics queue\<close>

text \<open>
  The three modules are closures over mutable JavaScript objects. The model threads one
  record \<open>world\<close> through every operation. Arrays are objects with identity: the registry
  objects hold references into a heap of arrays, because \<open>on\<close> pushes onto the array in
  place, \<open>off\<close> stores a fresh array made by \<open>filter\<close>, and \<open>forEach\<close> keeps iterating over the
  array object it was started on.
\<close>

subsection \<open>Values, functions and errors\<close>

text \<open>A function object is known by its identity only; so is an array object.\<close>

type_synonym hid = nat
type_synonym aref = nat

text \<open>Structured data passed around as event data, state values and payloads.\<close>

datatype val = Undefined | Null | Bool bool | Num int | Str string | Obj "(string \<times> val) list"

text \<open>
  What a property read can return: a data value, or a member inherited from
  \<open>Object.prototype\<close> (\<open>Builtin k\<close> is the built-in function \<open>Object.prototype[k]\<close>; for
  \<open>k = __proto__\<close> it is the object \<open>Object.prototype\<close> itself).
\<close>

datatype jsval = Data val | Builtin string

text \<open>
  Uncaught exceptions: the \<open>TypeError\<close> of calling a method that is \<open>undefined\<close>, the
  \<open>RangeError\<close> of an exhausted call stack, and a value thrown by a callback.
\<close>

datatype error = TypeError | RangeError | Thrown val

subsection \<open>The state\<close>

record event =
  etype :: string
  payload :: val
  timestamp :: int
  url :: string

datatype logarg = LStr string | LVal val | LEvent event

text \<open>The prototype of the object literal \<open>store\<close>; the \<open>__proto__\<close> setter can replace it.\<close>

datatype proto = ObjectPrototype | ProtoObj "(string \<times> val) list" | ProtoNull

record world =
  debug :: bool
  console :: "logarg list list"
  next_ref :: aref
  arrays :: "aref \<Rightarrow> hid list"
  events :: "string \<rightharpoonup> aref"
  store :: "string \<rightharpoonup> val"
  store_proto :: proto
  listeners :: "string \<rightharpoonup> aref"
  queue :: aref
  qarrays :: "aref \<Rightarrow> event list"
  invoked :: "(hid \<times> val) list"

text \<open>
  The last field is not a variable of the script. It records every function call that is
  made, at any depth of nesting, with its argument, in the order of the calls, so that a
  statement can say which functions have run.

  The state after the script has loaded its core: \<open>config.debug\<close> is \<open>false\<close>, the three
  registries are empty object literals, and \<open>queue\<close> is a fresh empty array.
\<close>

definition init_world :: world where
  "init_world =
     \<lparr>debug = False, console = [], next_ref = 1, arrays = (\<lambda>_. []),
      events = Map.empty, store = Map.empty, store_proto = ObjectPrototype,
      listeners = Map.empty, queue = 0, qarrays = (\<lambda>_. []), invoked = []\<rparr>"

definition MAX_QUEUE :: nat where
  "MAX_QUEUE = 50"

subsection \<open>Object literals as dictionaries\<close>

text \<open>
  \<open>events\<close>, \<open>store\<close> and \<open>listeners\<close> are created by \<open>{}\<close>, so a read \<open>obj[k]\<close> that finds no
  own property continues in \<open>Object.prototype\<close>. These are its property names in a browser
  (ECMAScript, with the legacy members of Annex B).
\<close>

definition object_prototype_keys :: "string list" where
  "object_prototype_keys =
     [''constructor'', ''__defineGetter__'', ''__defineSetter__'', ''hasOwnProperty'',
      ''__lookupGetter__'', ''__lookupSetter__'', ''isPrototypeOf'', ''propertyIsEnumerable'',
      ''toString'', ''valueOf'', ''__proto__'', ''toLocaleString'']"

text \<open>
  The read \<open>events[event]\<close> or \<open>listeners[key]\<close>. The code only ever stores arrays there, and
  only under names that read as \<open>undefined\<close> before, so an inherited member is never
  shadowed. Arrays and inherited members are truthy; a missing property is \<open>undefined\<close>.
\<close>

datatype regprop = Missing | Own aref | Inherited string

definition registry_lookup :: "(string \<rightharpoonup> aref) \<Rightarrow> string \<Rightarrow> regprop" where
  "registry_lookup m k =
     (case m k of
        Some r \<Rightarrow> Own r
      | None \<Rightarrow> if k \<in> set object_prototype_keys then Inherited k else Missing)"

text \<open>
  The property search of a read or write on \<open>store\<close>: own properties, then the prototype
  chain. \<open>__proto__\<close> is an accessor of \<open>Object.prototype\<close>; its other members are writable
  data properties.
\<close>

datatype slot = Absent | DataSlot jsval | ProtoAccessor

definition object_prototype_slot :: "string \<Rightarrow> slot" where
  "object_prototype_slot k =
     (if k = ''__proto__'' then ProtoAccessor
      else if k \<in> set object_prototype_keys then DataSlot (Builtin k)
      else Absent)"

definition store_slot :: "world \<Rightarrow> string \<Rightarrow> slot" where
  "store_slot w k =
     (case store w k of
        Some v \<Rightarrow> DataSlot (Data v)
      | None \<Rightarrow>
          (case store_proto w of
             ObjectPrototype \<Rightarrow> object_prototype_slot k
           | ProtoObj ps \<Rightarrow>
               (case map_of ps k of
                  Some v \<Rightarrow> DataSlot (Data v)
                | None \<Rightarrow> object_prototype_slot k)
           | ProtoNull \<Rightarrow> Absent))"

text \<open>The value of \<open>store[key]\<close>.\<close>

definition store_read :: "world \<Rightarrow> string \<Rightarrow> jsval" where
  "store_read w k =
     (case store_slot w k of
        Absent \<Rightarrow> Data Undefined
      | DataSlot v \<Rightarrow> v
      | ProtoAccessor \<Rightarrow>
          (case store_proto w of
             ObjectPrototype \<Rightarrow> Builtin ''__proto__''
           | ProtoObj ps \<Rightarrow> Data (Obj ps)
           | ProtoNull \<Rightarrow> Data Null))"

text \<open>
  The assignment \<open>store[key] = value\<close>. A data property found on the chain, or none at
  all, gives an own property. The \<open>__proto__\<close> setter replaces the prototype when the value
  is an object or \<open>null\<close> and ignores every other value.
\<close>

definition store_write :: "string \<Rightarrow> val \<Rightarrow> world \<Rightarrow> world" where
  "store_write k v w =
     (case store_slot w k of
        ProtoAccessor \<Rightarrow>
          (case v of
             Obj ps \<Rightarrow> w\<lparr>store_proto := ProtoObj ps\<rparr>
           | Null \<Rightarrow> w\<lparr>store_proto := ProtoNull\<rparr>
           | _ \<Rightarrow> w)
      | _ \<Rightarrow> w\<lparr>store := (store w)(k \<mapsto> v)\<rparr>)"

subsection \<open>Logger\<close>

definition utils_log :: "logarg list \<Rightarrow> world \<Rightarrow> world" where
  "utils_log args w =
     (if debug w then w\<lparr>console := console w @ [LStr ''[ORBITAL]'' # args]\<rparr> else w)"

subsection \<open>Calling function objects\<close>

text \<open>
  An operation that can throw returns the exception, if any, and the state at that moment.
  An \<open>invoker\<close> says what calling function object \<open>h\<close> with one argument does.
\<close>

type_synonym outcome = "error option \<times> world"
type_synonym invoker = "hid \<Rightarrow> val \<Rightarrow> world \<Rightarrow> outcome"
type_synonym dispatch = "error option \<times> (hid \<times> val) list \<times> world"

text \<open>
  \<open>arr.forEach(h => h(data))\<close> on the array object \<open>r\<close>: the length is read once, before
  the first call; each element is read from the array as it is when its turn comes; an
  exception of a callback ends the loop. The second component lists the calls the loop
  made, in order.
\<close>

function for_each :: "invoker \<Rightarrow> aref \<Rightarrow> nat \<Rightarrow> nat \<Rightarrow> val \<Rightarrow> world \<Rightarrow> dispatch" where
  "for_each cb r len k d w =
     (if k < len then
        (if k < length (arrays w r) then
           (case cb (arrays w r ! k) d w of
              (Some e, w') \<Rightarrow> (Some e, [(arrays w r ! k, d)], w')
            | (None, w') \<Rightarrow>
                (case for_each cb r len (Suc k) d w' of
                   (err, calls, w'') \<Rightarrow> (err, (arrays w r ! k, d) # calls, w'')))
         else for_each cb r len (Suc k) d w)
      else (None, [], w))"
  by pat_completeness auto
termination
  by (relation "measure (\<lambda>(cb, r, len, k, d, w). len - k)") auto

subsection \<open>Event bus\<close>

definition events_on :: "string \<Rightarrow> hid \<Rightarrow> world \<Rightarrow> outcome" where
  "events_on event handler w =
     (let w1 = (case registry_lookup (events w) event of
                  Missing \<Rightarrow>
                    w\<lparr>next_ref := Suc (next_ref w),
                      arrays := (arrays w)(next_ref w := []),
                      events := (events w)(event \<mapsto> next_ref w)\<rparr>
                | _ \<Rightarrow> w)
      in case registry_lookup (events w1) event of
           Own r \<Rightarrow> (None, w1\<lparr>arrays := (arrays w1)(r := arrays w1 r @ [handler])\<rparr>)
         | _ \<Rightarrow> (Some TypeError, w1))"

definition events_off :: "string \<Rightarrow> hid \<Rightarrow> world \<Rightarrow> outcome" where
  "events_off event handler w =
     (case registry_lookup (events w) event of
        Missing \<Rightarrow> (None, w)
      | Inherited _ \<Rightarrow> (Some TypeError, w)
      | Own r \<Rightarrow>
          (None, w\<lparr>next_ref := Suc (next_ref w),
                   arrays := (arrays w)(next_ref w := filter (\<lambda>h. h \<noteq> handler) (arrays w r)),
                   events := (events w)(event \<mapsto> next_ref w)\<rparr>))"

definition events_emit :: "invoker \<Rightarrow> string \<Rightarrow> val \<Rightarrow> world \<Rightarrow> dispatch" where
  "events_emit cb event data w =
     (let w1 = utils_log [LStr ''Event:'', LStr event, LVal data] w
      in case registry_lookup (events w1) event of
           Missing \<Rightarrow> (None, [], w1)
         | Inherited _ \<Rightarrow> (Some TypeError, [], w1)
         | Own r \<Rightarrow> for_each cb r (length (arrays w1 r)) 0 data w1)"

subsection \<open>State store\<close>

definition state_get :: "string \<Rightarrow> world \<Rightarrow> jsval" where
  "state_get key w = store_read w key"

definition state_set :: "invoker \<Rightarrow> string \<Rightarrow> val \<Rightarrow> world \<Rightarrow> dispatch" where
  "state_set cb key v w =
     (let w1 = store_write key v w;
          w2 = utils_log [LStr ''State:'', LStr key, LVal v] w1
      in case registry_lookup (listeners w2) key of
           Missing \<Rightarrow> (None, [], w2)
         | Inherited _ \<Rightarrow> (Some TypeError, [], w2)
         | Own r \<Rightarrow> for_each cb r (length (arrays w2 r)) 0 v w2)"

definition state_subscribe :: "string \<Rightarrow> hid \<Rightarrow> world \<Rightarrow> outcome" where
  "state_subscribe key fn w =
     (let w1 = (case registry_lookup (listeners w) key of
                  Missing \<Rightarrow>
                    w\<lparr>next_ref := Suc (next_ref w),
                      arrays := (arrays w)(next_ref w := []),
                      listeners := (listeners w)(key \<mapsto> next_ref w)\<rparr>
                | _ \<Rightarrow> w)
      in case registry_lookup (listeners w1) key of
           Own r \<Rightarrow> (None, w1\<lparr>arrays := (arrays w1)(r := arrays w1 r @ [fn])\<rparr>)
         | _ \<Rightarrow> (Some TypeError, w1))"

subsection \<open>Analytics queue\<close>

text \<open>
  \<open>log(type, payload = {})\<close>: the default applies when the argument is \<open>undefined\<close>.
  \<open>now\<close> and \<open>path\<close> are what \<open>Date.now()\<close> and \<open>location.pathname\<close> return at the call.
\<close>

definition build_event :: "string \<Rightarrow> val \<Rightarrow> int \<Rightarrow> string \<Rightarrow> event" where
  "build_event ty pl now path =
     \<lparr>etype = ty, payload = (if pl = Undefined then Obj [] else pl),
      timestamp = now, url = path\<rparr>"

definition analytics_log :: "string \<Rightarrow> val \<Rightarrow> int \<Rightarrow> string \<Rightarrow> world \<Rightarrow> world" where
  "analytics_log ty pl now path w =
     (let ev = build_event ty pl now path;
          w1 = w\<lparr>qarrays := (qarrays w)(queue w := qarrays w (queue w) @ [ev])\<rparr>;
          w2 = (if length (qarrays w1 (queue w1)) > MAX_QUEUE
                then w1\<lparr>qarrays := (qarrays w1)(queue w1 := tl (qarrays w1 (queue w1)))\<rparr>
                else w1)
      in utils_log [LStr ''Analytics:'', LEvent ev] w2)"

text \<open>A sequence of \<open>log\<close> calls, each with its arguments and its clock and path readings.\<close>

type_synonym logcall = "string \<times> val \<times> int \<times> string"

definition event_of :: "logcall \<Rightarrow> event" where
  "event_of c = (case c of (ty, pl, now, path) \<Rightarrow> build_event ty pl now path)"

fun log_all :: "logcall list \<Rightarrow> world \<Rightarrow> world" where
  "log_all [] w = w"
| "log_all ((ty, pl, now, path) # cs) w = log_all cs (analytics_log ty pl now path w)"

text \<open>\<open>getQueue\<close> returns a new array object holding the elements of \<open>queue\<close>.\<close>

definition analytics_getQueue :: "world \<Rightarrow> aref \<times> world" where
  "analytics_getQueue w =
     (next_ref w,
      w\<lparr>next_ref := Suc (next_ref w),
        qarrays := (qarrays w)(next_ref w := qarrays w (queue w))\<rparr>)"

text \<open>
  What a caller can do to an array it holds a reference to: replace its elements by any
  rearrangement, in place (\<open>push\<close>, \<open>pop\<close>, \<open>shift\<close>, \<open>splice\<close>, \<open>reverse\<close>, \<open>sort\<close>, \<open>length = 0\<close>).
\<close>

definition array_mutate :: "aref \<Rightarrow> (event list \<Rightarrow> event list) \<Rightarrow> world \<Rightarrow> world" where
  "array_mutate r f w = w\<lparr>qarrays := (qarrays w)(r := f (qarrays w r))\<rparr>"

subsection \<open>Callbacks\<close>

text \<open>
  The body of a callback, as far as the core can see it: the calls it makes into the
  three modules, a \<open>throw\<close>, a \<open>try\<close> block with its \<open>catch\<close> block, and a branch on what
  it can observe of the state. \<open>DoLog\<close> carries the clock and path readings of its
  \<open>analytics.log\<close> call.
\<close>

datatype cmd =
    DoOn string hid
  | DoOff string hid
  | DoEmit string val
  | DoSet string val
  | DoSubscribe string hid
  | DoLog string val int string
  | DoThrow val
  | DoTry "cmd list" "cmd list"
  | DoIf "world \<Rightarrow> bool" "cmd list" "cmd list"

type_synonym handlers = "hid \<Rightarrow> val \<Rightarrow> cmd list"

fun exec :: "invoker \<Rightarrow> cmd \<Rightarrow> world \<Rightarrow> outcome"
  and run :: "invoker \<Rightarrow> cmd list \<Rightarrow> world \<Rightarrow> outcome" where
  "exec cb (DoOn e h) w = events_on e h w"
| "exec cb (DoOff e h) w = events_off e h w"
| "exec cb (DoEmit e d) w = (case events_emit cb e d w of (err, calls, w') \<Rightarrow> (err, w'))"
| "exec cb (DoSet k v) w = (case state_set cb k v w of (err, calls, w') \<Rightarrow> (err, w'))"
| "exec cb (DoSubscribe k h) w = state_subscribe k h w"
| "exec cb (DoLog ty pl now path) w = (None, analytics_log ty pl now path w)"
| "exec cb (DoThrow v) w = (Some (Thrown v), w)"
| "exec cb (DoTry body handler) w =
     (case run cb body w of
        (Some e, w') \<Rightarrow> run cb handler w'
      | (None, w') \<Rightarrow> (None, w'))"
| "exec cb (DoIf c yes no) w = (if c w then run cb yes w else run cb no w)"
| "run cb [] w = (None, w)"
| "run cb (c # cs) w =
     (case exec cb c w of
        (Some e, w') \<Rightarrow> (Some e, w')
      | (None, w') \<Rightarrow> run cb cs w')"

text \<open>
  Calling function object \<open>h\<close> with argument \<open>d\<close>, with room for \<open>n\<close> nested callback frames
  on the call stack: \<open>H h d\<close> is the body. With no room left the call throws \<open>RangeError\<close>
  and the function does not run. A call that enters the function is recorded in
  \<open>invoked\<close>.
\<close>

primrec call :: "nat \<Rightarrow> handlers \<Rightarrow> invoker" where
  "call 0 H h d w = (Some RangeError, w)"
| "call (Suc n) H h d w = run (call n H) (H h d) (w\<lparr>invoked := invoked w @ [(h, d)]\<rparr>)"

subsection \<open>States the code can reach\<close>

text \<open>
  Every array a registry refers to, and the queue, has been allocated; registries hold no
  name of \<open>Object.prototype\<close>; the queue holds at most \<open>MAX_QUEUE\<close> records.
\<close>

definition well_formed :: "world \<Rightarrow> bool" where
  "well_formed w \<longleftrightarrow>
     (\<forall>k r. events w k = Some r \<longrightarrow> r < next_ref w \<and> k \<notin> set object_prototype_keys) \<and>
     (\<forall>k r. listeners w k = Some r \<longrightarrow> r < next_ref w \<and> k \<notin> set object_prototype_keys) \<and>
     queue w < next_ref w \<and>
     length (qarrays w (queue w)) \<le> MAX_QUEUE"

text \<open>
  What any run of the code does to the heap of arrays: allocated arrays are only ever
  extended at their end, the allocation counter never decreases, and a key of \<open>listeners\<close>
  keeps its array (nothing removes or replaces a subscriber list).
\<close>

definition grows :: "world \<Rightarrow> world \<Rightarrow> bool" where
  "grows w w' \<longleftrightarrow>
     next_ref w \<le> next_ref w' \<and>
     (\<forall>r. r < next_ref w \<longrightarrow> (\<exists>ys. arrays w' r = arrays w r @ ys)) \<and>
     (\<forall>k r. listeners w k = Some r \<longrightarrow> listeners w' k = Some r)"

definition evolves :: "world \<Rightarrow> world \<Rightarrow> bool" where
  "evolves w w' \<longleftrightarrow> grows w w' \<and> (well_formed w \<longrightarrow> well_formed w')"

definition orderly :: "invoker \<Rightarrow> bool" where
  "orderly cb \<longleftrightarrow> (\<forall>h d w. evolves w (snd (cb h d w)))"

text \<open>
  The states reached from the initial one by calls into the three modules, from top level
  or from callbacks with bodies \<open>H\<close>. A caller can also change, in place, an array that
  \<open>getQueue\<close> gave it (never the queue itself, which does not leave its closure), and the
  keyboard shortcut toggles \<open>config.debug\<close>.
\<close>

inductive reachable :: "handlers \<Rightarrow> world \<Rightarrow> bool" for H :: handlers where
  reach_init: "reachable H init_world"
| reach_on: "reachable H w \<Longrightarrow> reachable H (snd (events_on T h w))"
| reach_off: "reachable H w \<Longrightarrow> reachable H (snd (events_off T h w))"
| reach_emit: "reachable H w \<Longrightarrow> reachable H (snd (snd (events_emit (call n H) T d w)))"
| reach_set: "reachable H w \<Longrightarrow> reachable H (snd (snd (state_set (call n H) k d w)))"
| reach_subscribe: "reachable H w \<Longrightarrow> reachable H (snd (state_subscribe k h w))"
| reach_log: "reachable H w \<Longrightarrow> reachable H (analytics_log ty pl now path w)"
| reach_getQueue: "reachable H w \<Longrightarrow> reachable H (snd (analytics_getQueue w))"
| reach_mutate: "reachable H w \<Longrightarrow> r \<noteq> queue w \<Longrightarrow> reachable H (array_mutate r f w)"
| reach_debug: "reachable H w \<Longrightarrow> reachable H (w\<lparr>debug := b\<rparr>)"

text \<open>The handler sequence of a topic and the subscriber sequence of a key.\<close>

definition handlers_of :: "world \<Rightarrow> string \<Rightarrow> hid list" where
  "handlers_of w T = (case events w T of None \<Rightarrow> [] | Some r \<Rightarrow> arrays w r)"

definition subscribers_of :: "world \<Rightarrow> string \<Rightarrow> hid list" where
  "subscribers_of w k = (case listeners w k of None \<Rightarrow> [] | Some r \<Rightarrow> arrays w r)"

subsection \<open>Snapshot dispatch, after the specification\<close>

text \<open>
  Section 4.1 of the specification: dispatch operates over a snapshot of the handler
  sequence taken when \<open>publish\<close> is invoked. This definition follows those words: it
  walks a fixed list of handlers and never looks at the registry again. It is compared
  with \<open>for_each\<close>, which follows the code.
\<close>

fun snapshot_dispatch :: "invoker \<Rightarrow> hid list \<Rightarrow> val \<Rightarrow> world \<Rightarrow> dispatch" where
  "snapshot_dispatch cb [] d w = (None, [], w)"
| "snapshot_dispatch cb (h # hs) d w =
     (case cb h d w of
        (Some e, w') \<Rightarrow> (Some e, [(h, d)], w')
      | (None, w') \<Rightarrow>
          (case snapshot_dispatch cb hs d w' of
             (err, calls, w'') \<Rightarrow> (err, (h, d) # calls, w'')))"

subsection \<open>Example callbacks and states\<close>

text \<open>
  Function 0 unregisters itself from topic \<open>x\<close>, function 2 registers function 3 for \<open>x\<close>,
  function 4 throws, and every other function leaves the core alone.
\<close>

definition example_handlers :: handlers where
  "example_handlers h d =
     (if h = 0 then [DoOff ''x'' 0]
      else if h = 2 then [DoOn ''x'' 3]
      else if h = 4 then [DoThrow (Str ''boom'')]
      else [])"

text \<open>\<open>on("x", f0); on("x", f1)\<close> and \<open>on("x", f2); on("x", f1)\<close> on the initial state.\<close>

definition world_x01 :: world where
  "world_x01 = snd (events_on ''x'' 1 (snd (events_on ''x'' 0 init_world)))"

definition world_x21 :: world where
  "world_x21 = snd (events_on ''x'' 1 (snd (events_on ''x'' 2 init_world)))"


text \<open>\<open>subscribe("k", f1)\<close> on the initial state.\<close>

definition world_k1 :: world where
  "world_k1 = snd (state_subscribe ''k'' 1 init_world)"

text \<open>
  Subscribers of the state store: function 4 throws, function 6 records an analytics event
  on every call, function 8 writes 0 under key \<open>k\<close> whenever another value is stored there
  (so a \<open>set("k", 1)\<close> makes it call \<open>set\<close> again), and every other function leaves the core
  alone.
\<close>

definition example_subscribers :: handlers where
  "example_subscribers h d =
     (if h = 4 then [DoThrow (Str ''boom'')]
      else if h = 6 then [DoLog ''seen'' d 0 ''/'']
      else if h = 8 then [DoIf (\<lambda>w. store w ''k'' \<noteq> Some (Num 0)) [DoSet ''k'' (Num 0)] []]
      else [])"

text \<open>
  \<open>subscribe("k", f6)\<close>, \<open>subscribe("k", f4)\<close> and \<open>subscribe("k", f8)\<close>, each on the initial
  state; \<open>subscribe("k", f6)\<close> after \<open>subscribe("k", f4)\<close>; and \<open>subscribe("k", f6)\<close> twice.
\<close>

definition world_k6 :: world where
  "world_k6 = snd (state_subscribe ''k'' 6 init_world)"

definition world_k4 :: world where
  "world_k4 = snd (state_subscribe ''k'' 4 init_world)"

definition world_k8 :: world where
  "world_k8 = snd (state_subscribe ''k'' 8 init_world)"

definition world_k46 :: world where
  "world_k46 = snd (state_subscribe ''k'' 6 world_k4)"

definition world_k66 :: world where
  "world_k66 = snd (state_subscribe ''k'' 6 world_k6)"

text \<open>
  The state after two consecutive calls \<open>set(key, v)\<close>. (An exception of the first call
  ends the caller's task; the second call is then made by a later one.)
\<close>

definition set_twice :: "invoker \<Rightarrow> string \<Rightarrow> val \<Rightarrow> world \<Rightarrow> world" where
  "set_twice cb key v w = snd (snd (state_set cb key v (snd (snd (state_set cb key v w)))))"

text \<open>A callback body that only records analytics events (the empty body included).\<close>

fun logs_only :: "cmd \<Rightarrow> bool" where
  "logs_only (DoLog ty pl now path) = True"
| "logs_only c = False"

section \<open>Properties\<close>

lemma well_formed_init_world: "well_formed init_world"
  by (simp add: well_formed_def init_world_def)

subsection \<open>The heap of arrays only grows\<close>

declare for_each.simps [simp del]

lemma grows_refl: "grows w w"
  by (simp add: grows_def)

lemma grows_trans: "grows w w1 \<Longrightarrow> grows w1 w2 \<Longrightarrow> grows w w2"
  unfolding grows_def
  apply (intro conjI allI impI)
    apply simp
   apply (metis append.assoc less_le_trans)
  apply blast
  done

lemma evolves_refl: "evolves w w"
  by (simp add: evolves_def grows_refl)

lemma evolves_trans: "evolves w w1 \<Longrightarrow> evolves w1 w2 \<Longrightarrow> evolves w w2"
  unfolding evolves_def using grows_trans by blast

lemma grows_take:
  assumes "grows w w1" "r < next_ref w" "len \<le> length (arrays w r)"
  shows "take len (arrays w1 r) = take len (arrays w r)"
    and "r < next_ref w1" and "len \<le> length (arrays w1 r)"
proof -
  from assms obtain ys where ys: "arrays w1 r = arrays w r @ ys" and le: "next_ref w \<le> next_ref w1"
    unfolding grows_def by blast
  show "take len (arrays w1 r) = take len (arrays w r)" using ys assms(3) by simp
  show "r < next_ref w1" using le assms(2) by simp
  show "len \<le> length (arrays w1 r)" using ys assms(3) by simp
qed

lemma orderly_evolves: "orderly cb \<Longrightarrow> cb h d w = (e, w') \<Longrightarrow> evolves w w'"
  unfolding orderly_def by (metis snd_conv)

lemma orderly_grows: "orderly cb \<Longrightarrow> cb h d w = (e, w') \<Longrightarrow> grows w w'"
  using orderly_evolves evolves_def by blast

lemma for_each_snapshot:
  assumes ok: "orderly cb"
  shows "r < next_ref w \<Longrightarrow> len \<le> length (arrays w r) \<Longrightarrow>
         for_each cb r len k d w = snapshot_dispatch cb (drop k (take len (arrays w r))) d w"
  using ok
proof (induction cb r len k d w rule: for_each.induct)
  case (1 cb r len k d w)
  show ?case
  proof (cases "k < len")
    case False
    then show ?thesis by (simp add: for_each.simps[of cb r len k d w])
  next
    case True
    with "1.prems" have kl: "k < length (arrays w r)" by simp
    have dr: "drop k (take len (arrays w r)) = arrays w r ! k # drop (Suc k) (take len (arrays w r))"
      using True kl by (simp add: Cons_nth_drop_Suc[symmetric])
    obtain e w1 where cb: "cb (arrays w r ! k) d w = (e, w1)" by (cases "cb (arrays w r ! k) d w")
    have g: "grows w w1" using orderly_grows[OF "1.prems"(3) cb] .
    note gt = grows_take[OF g "1.prems"(1) "1.prems"(2)]
    show ?thesis
    proof (cases e)
      case (Some a)
      then show ?thesis using True kl cb dr by (simp add: for_each.simps[of cb r len k d w])
    next
      case None
      have ih: "for_each cb r len (Suc k) d w1 = snapshot_dispatch cb (drop (Suc k) (take len (arrays w1 r))) d w1"
        using "1.IH"(1)[OF True kl cb[symmetric] None gt(2) gt(3) "1.prems"(3)] .
      show ?thesis using True kl cb dr None ih gt(1) by (simp add: for_each.simps[of cb r len k d w])
    qed
  qed
qed

lemma for_each_evolves:
  "orderly cb \<Longrightarrow> for_each cb r len k d w = (err, calls, w') \<Longrightarrow> evolves w w'"
proof (induction cb r len k d w arbitrary: err calls w' rule: for_each.induct)
  case (1 cb r len k d w)
  show ?case
  proof (cases "k < len")
    case False
    then show ?thesis using "1.prems"(2) by (simp add: for_each.simps[of cb r len k d w] evolves_refl)
  next
    case True
    show ?thesis
    proof (cases "k < length (arrays w r)")
      case False
      then show ?thesis using True "1.prems" "1.IH"(2)[OF True False "1.prems"(1)]
        by (simp add: for_each.simps[of cb r len k d w])
    next
      case kl: True
      obtain e w1 where cb: "cb (arrays w r ! k) d w = (e, w1)" by (cases "cb (arrays w r ! k) d w")
      have g: "evolves w w1" using orderly_evolves[OF "1.prems"(1) cb] .
      show ?thesis
      proof (cases e)
        case (Some a)
        then show ?thesis using True kl cb g "1.prems"(2) by (simp add: for_each.simps[of cb r len k d w])
      next
        case None
        obtain err2 calls2 w2 where fe: "for_each cb r len (Suc k) d w1 = (err2, calls2, w2)"
          by (cases "for_each cb r len (Suc k) d w1")
        have "evolves w1 w2" using "1.IH"(1)[OF True kl cb[symmetric] None "1.prems"(1) fe] .
        then show ?thesis using True kl cb g "1.prems"(2) None fe evolves_trans
          by (auto simp add: for_each.simps[of cb r len k d w])
      qed
    qed
  qed
qed

lemma utils_log_evolves: "evolves w (utils_log args w)"
  by (simp add: utils_log_def evolves_def grows_def well_formed_def)

lemma store_write_evolves: "evolves w (store_write k v w)"
  by (auto simp add: store_write_def evolves_def grows_def well_formed_def split: slot.splits val.splits)

lemma analytics_log_evolves: "evolves w (analytics_log ty pl now path w)"
  by (auto simp add: analytics_log_def utils_log_def Let_def evolves_def grows_def well_formed_def)

lemma events_on_evolves: "events_on e h w = (err, w') \<Longrightarrow> evolves w w'"
  by (fastforce simp add: events_on_def registry_lookup_def Let_def evolves_def grows_def well_formed_def
      less_Suc_eq split: option.splits if_splits)

lemma events_off_evolves: "events_off e h w = (err, w') \<Longrightarrow> evolves w w'"
  by (fastforce simp add: events_off_def registry_lookup_def Let_def evolves_def grows_def well_formed_def
      less_Suc_eq split: option.splits if_splits)

lemma state_subscribe_evolves: "state_subscribe e h w = (err, w') \<Longrightarrow> evolves w w'"
  by (fastforce simp add: state_subscribe_def registry_lookup_def Let_def evolves_def grows_def well_formed_def
      less_Suc_eq split: option.splits if_splits)

lemma events_emit_evolves:
  "orderly cb \<Longrightarrow> events_emit cb e d w = (err, calls, w') \<Longrightarrow> evolves w w'"
  by (auto simp add: events_emit_def Let_def split: regprop.splits
      intro: utils_log_evolves evolves_trans[OF utils_log_evolves for_each_evolves])

lemma state_set_evolves:
  "orderly cb \<Longrightarrow> state_set cb k v w = (err, calls, w') \<Longrightarrow> evolves w w'"
  by (auto simp add: state_set_def Let_def split: regprop.splits
      intro: evolves_trans[OF store_write_evolves utils_log_evolves]
             evolves_trans[OF evolves_trans[OF store_write_evolves utils_log_evolves] for_each_evolves])

lemma exec_run_evolves:
  "orderly cb \<Longrightarrow> exec cb c w = (err, w') \<Longrightarrow> evolves w w'"
  "orderly cb \<Longrightarrow> run cb cs w = (err, w') \<Longrightarrow> evolves w w'"
proof (induction cb c w and cb cs w arbitrary: err w' and err w' rule: exec_run.induct)
  case (1 cb e h w)
  then show ?case by (simp add: events_on_evolves)
next
  case (2 cb e h w)
  then show ?case by (simp add: events_off_evolves)
next
  case (3 cb e d w)
  then show ?case by (auto split: prod.splits dest: events_emit_evolves)
next
  case (4 cb k v w)
  then show ?case by (auto split: prod.splits dest: state_set_evolves)
next
  case (5 cb k h w)
  then show ?case by (simp add: state_subscribe_evolves)
next
  case (6 cb ty pl now path w)
  then show ?case by (auto simp add: analytics_log_evolves)
next
  case (7 cb v w)
  then show ?case by (auto simp add: evolves_refl)
next
  case (8 cb body handler w)
  obtain e w1 where r: "run cb body w = (e, w1)" by (cases "run cb body w")
  have g: "evolves w w1" using "8.IH"(1)[OF "8.prems"(1) r] .
  show ?case
  proof (cases e)
    case None
    then show ?thesis using "8.prems"(2) r g by simp
  next
    case (Some a)
    then have "run cb handler w1 = (err, w')" using "8.prems"(2) r by simp
    then have "evolves w1 w'" using "8.IH"(2)[OF r[symmetric] Some "8.prems"(1)] by simp
    then show ?thesis using g evolves_trans by blast
  qed
next
  case (9 cb c yes no w)
  then show ?case by (auto split: if_splits)
next
  case (10 cb w)
  then show ?case by (simp add: evolves_refl)
next
  case (11 cb c cs w)
  obtain e w1 where ex: "exec cb c w = (e, w1)" by (cases "exec cb c w")
  have g: "evolves w w1" using "11.IH"(1)[OF "11.prems"(1) ex] .
  show ?case
  proof (cases e)
    case None
    then have "run cb cs w1 = (err, w')" using "11.prems"(2) ex by simp
    then have "evolves w1 w'" using "11.IH"(2)[OF ex[symmetric] None "11.prems"(1)] by simp
    then show ?thesis using g evolves_trans by blast
  next
    case (Some a)
    then show ?thesis using "11.prems"(2) ex g by simp
  qed
qed

lemma run_evolves: "orderly cb \<Longrightarrow> run cb cs w = (err, w') \<Longrightarrow> evolves w w'"
  by (rule exec_run_evolves(2))

lemma invoked_evolves: "evolves (w::world) (w\<lparr>invoked := xs\<rparr>)"
  by (simp add: evolves_def grows_def well_formed_def)

lemma call_orderly: "orderly (call n H)"
proof (induction n)
  case 0
  then show ?case by (simp add: orderly_def evolves_refl)
next
  case (Suc n)
  show ?case unfolding orderly_def
  proof (intro allI)
    fix h d and w :: world
    let ?w0 = "w\<lparr>invoked := invoked w @ [(h, d)]\<rparr>"
    obtain e w' where r: "run (call n H) (H h d) ?w0 = (e, w')"
      by (cases "run (call n H) (H h d) ?w0")
    have "evolves ?w0 w'" using run_evolves[OF Suc r] .
    then have "evolves w w'" using evolves_trans[OF invoked_evolves] by blast
    then show "evolves w (snd (call (Suc n) H h d w))" using r by simp
  qed
qed

text \<open>Every operation of the three modules keeps a state well formed.\<close>

lemma well_formed_preserved:
  assumes "well_formed w"
  shows "well_formed (snd (events_on T h w))"
    and "well_formed (snd (events_off T h w))"
    and "well_formed (snd (snd (events_emit (call n H) T d w)))"
    and "well_formed (snd (snd (state_set (call n H) k d w)))"
    and "well_formed (snd (state_subscribe k h w))"
    and "well_formed (analytics_log ty pl now path w)"
    and "well_formed (snd (analytics_getQueue w))"
    and "r \<noteq> queue w \<Longrightarrow> well_formed (array_mutate r f w)"
proof -
  show "well_formed (snd (events_on T h w))"
    using events_on_evolves[of T h w] assms by (cases "events_on T h w") (simp add: evolves_def)
  show "well_formed (snd (events_off T h w))"
    using events_off_evolves[of T h w] assms by (cases "events_off T h w") (simp add: evolves_def)
  show "well_formed (snd (snd (events_emit (call n H) T d w)))"
    using events_emit_evolves[OF call_orderly, of n H T d w] assms
    by (cases "events_emit (call n H) T d w") (simp add: evolves_def)
  show "well_formed (snd (snd (state_set (call n H) k d w)))"
    using state_set_evolves[OF call_orderly, of n H k d w] assms
    by (cases "state_set (call n H) k d w") (simp add: evolves_def)
  show "well_formed (snd (state_subscribe k h w))"
    using state_subscribe_evolves[of k h w] assms by (cases "state_subscribe k h w") (simp add: evolves_def)
  show "well_formed (analytics_log ty pl now path w)"
    using analytics_log_evolves[of w ty pl now path] assms by (simp add: evolves_def)
  show "well_formed (snd (analytics_getQueue w))"
    using assms by (auto simp add: analytics_getQueue_def well_formed_def less_Suc_eq)
  show "r \<noteq> queue w \<Longrightarrow> well_formed (array_mutate r f w)"
    using assms by (simp add: array_mutate_def well_formed_def)
qed

lemma reachable_well_formed: "reachable H w \<Longrightarrow> well_formed w"
proof (induction rule: reachable.induct)
  case reach_init
  show ?case by (rule well_formed_init_world)
next
  case (reach_debug w b)
  then show ?case by (simp add: well_formed_def)
qed (simp_all add: well_formed_preserved)

subsection \<open>The code's dispatch is snapshot dispatch\<close>

lemma emit_refines:
  assumes "orderly cb" "well_formed w" "events w T = Some r"
  shows "events_emit cb T d w =
           snapshot_dispatch cb (arrays w r) d (utils_log [LStr ''Event:'', LStr T, LVal d] w)"
proof -
  let ?w1 = "utils_log [LStr ''Event:'', LStr T, LVal d] w"
  have e: "events ?w1 = events w" "arrays ?w1 = arrays w" "next_ref ?w1 = next_ref w"
    by (simp_all add: utils_log_def)
  have r: "r < next_ref ?w1" using assms(2,3) e by (simp add: well_formed_def)
  have "events_emit cb T d w = for_each cb r (length (arrays ?w1 r)) 0 d ?w1"
    using assms(3) e by (simp add: events_emit_def registry_lookup_def Let_def)
  also have "\<dots> = snapshot_dispatch cb (drop 0 (take (length (arrays ?w1 r)) (arrays ?w1 r))) d ?w1"
    using for_each_snapshot[OF assms(1) r, of "length (arrays ?w1 r)" 0 d] by simp
  finally show ?thesis using e by simp
qed

lemma set_refines:
  assumes "orderly cb" "well_formed w" "listeners w k = Some r"
  shows "state_set cb k v w =
           snapshot_dispatch cb (arrays w r) v
             (utils_log [LStr ''State:'', LStr k, LVal v] (store_write k v w))"
proof -
  let ?w2 = "utils_log [LStr ''State:'', LStr k, LVal v] (store_write k v w)"
  have e: "listeners ?w2 = listeners w" "arrays ?w2 = arrays w" "next_ref ?w2 = next_ref w"
    by (simp_all add: utils_log_def store_write_def split: slot.splits val.splits)
  have r: "r < next_ref ?w2" using assms(2,3) e by (simp add: well_formed_def)
  have "state_set cb k v w = for_each cb r (length (arrays ?w2 r)) 0 v ?w2"
    using assms(3) e by (simp add: state_set_def registry_lookup_def Let_def)
  also have "\<dots> = snapshot_dispatch cb (drop 0 (take (length (arrays ?w2 r)) (arrays ?w2 r))) v ?w2"
    using for_each_snapshot[OF assms(1) r, of "length (arrays ?w2 r)" 0 v] by simp
  finally show ?thesis using e by simp
qed

lemma snapshot_dispatch_calls:
  "snapshot_dispatch cb hs d w = (err, calls, w') \<Longrightarrow>
     calls = map (\<lambda>h. (h, d)) (take (length calls) hs) \<and>
     (err = None \<longrightarrow> calls = map (\<lambda>h. (h, d)) hs)"
proof (induction hs arbitrary: w err calls w')
  case Nil
  then show ?case by simp
next
  case (Cons h hs)
  obtain e w1 where cb: "cb h d w = (e, w1)" by (cases "cb h d w")
  show ?case
  proof (cases e)
    case (Some a)
    then show ?thesis using Cons.prems cb by auto
  next
    case None
    obtain err2 calls2 w2 where sd: "snapshot_dispatch cb hs d w1 = (err2, calls2, w2)"
      by (cases "snapshot_dispatch cb hs d w1")
    from Cons.IH[OF sd] show ?thesis using Cons.prems cb None sd by auto
  qed
qed

lemma snapshot_dispatch_evolves:
  "orderly cb \<Longrightarrow> snapshot_dispatch cb hs d w = (err, calls, w') \<Longrightarrow> evolves w w'"
proof (induction hs arbitrary: w err calls w')
  case Nil
  then show ?case by (simp add: evolves_refl)
next
  case (Cons h hs)
  obtain e w1 where cb: "cb h d w = (e, w1)" by (cases "cb h d w")
  have g: "evolves w w1" using orderly_evolves[OF Cons.prems(1) cb] .
  show ?case
  proof (cases e)
    case (Some a)
    then show ?thesis using Cons.prems cb g by auto
  next
    case None
    obtain err2 calls2 w2 where sd: "snapshot_dispatch cb hs d w1 = (err2, calls2, w2)"
      by (cases "snapshot_dispatch cb hs d w1")
    from Cons.IH[OF Cons.prems(1) sd] show ?thesis using Cons.prems cb None sd g evolves_trans by auto
  qed
qed

lemma snapshot_dispatch_normal:
  "(\<forall>h\<in>set hs. \<forall>w0. fst (cb h d w0) = None) \<Longrightarrow>
   \<exists>w'. snapshot_dispatch cb hs d w = (None, map (\<lambda>h. (h, d)) hs, w')"
proof (induction hs arbitrary: w)
  case Nil
  then show ?case by simp
next
  case (Cons h hs)
  obtain e w1 where cb: "cb h d w = (e, w1)" by (cases "cb h d w")
  have e: "e = None" using Cons.prems cb by (metis fst_conv list.set_intros(1))
  from Cons.IH[of w1] Cons.prems obtain w' where
    "snapshot_dispatch cb hs d w1 = (None, map (\<lambda>h. (h, d)) hs, w')" by auto
  then show ?case using cb e by simp
qed


subsection \<open>Dispatch over a fixed list\<close>


lemma snapshot_dispatch_append:
  "snapshot_dispatch cb xs d w = (None, c1, w1) \<Longrightarrow>
   snapshot_dispatch cb (xs @ ys) d w =
     (case snapshot_dispatch cb ys d w1 of (e, c2, w2) \<Rightarrow> (e, c1 @ c2, w2))"
proof (induction xs arbitrary: w c1)
  case Nil
  then show ?case by (simp split: prod.splits)
next
  case (Cons x xs)
  obtain e wa where cb: "cb x d w = (e, wa)" by (cases "cb x d w")
  show ?case
  proof (cases e)
    case (Some a)
    then show ?thesis using Cons.prems cb by simp
  next
    case None
    obtain e2 c2 wb where sd: "snapshot_dispatch cb xs d wa = (e2, c2, wb)"
      by (cases "snapshot_dispatch cb xs d wa")
    have e2: "e2 = None" and c1: "c1 = (x, d) # c2" and wb: "wb = w1"
      using Cons.prems cb None sd by simp_all
    show ?thesis using Cons.IH[of wa c2] sd e2 wb c1 cb None by (simp split: prod.splits)
  qed
qed

text \<open>Functions with an empty body: each call is recorded and changes nothing else.\<close>

lemma call_plain:
  "H h d = [] \<Longrightarrow> call (Suc n) H h d w = (None, w\<lparr>invoked := invoked w @ [(h, d)]\<rparr>)"
  by simp

lemma snapshot_dispatch_plain:
  "(\<forall>g\<in>set hs. H g d = []) \<Longrightarrow>
   snapshot_dispatch (call (Suc n) H) hs d w =
     (None, map (\<lambda>g. (g, d)) hs, w\<lparr>invoked := invoked w @ map (\<lambda>g. (g, d)) hs\<rparr>)"
proof (induction hs arbitrary: w)
  case Nil
  then show ?case by simp
next
  case (Cons h hs)
  let ?w1 = "w\<lparr>invoked := invoked w @ [(h, d)]\<rparr>"
  have c: "call (Suc n) H h d w = (None, ?w1)"
    using Cons.prems by (simp add: call_plain)
  have ih: "snapshot_dispatch (call (Suc n) H) hs d ?w1 =
     (None, map (\<lambda>g. (g, d)) hs, ?w1\<lparr>invoked := invoked ?w1 @ map (\<lambda>g. (g, d)) hs\<rparr>)"
    using Cons.IH[of ?w1] Cons.prems by (simp del: call.simps)
  have "snapshot_dispatch (call (Suc n) H) (h # hs) d w =
     (None, (h, d) # map (\<lambda>g. (g, d)) hs, ?w1\<lparr>invoked := invoked ?w1 @ map (\<lambda>g. (g, d)) hs\<rparr>)"
    by (simp only: snapshot_dispatch.simps c ih prod.case option.case)
  then show ?case by (simp del: call.simps)
qed

subsection \<open>The example states\<close>

lemma well_formed_on: "well_formed w \<Longrightarrow> well_formed (snd (events_on T h w))"
  using events_on_evolves[of T h w] by (cases "events_on T h w") (simp add: evolves_def)

lemma well_formed_subscribe: "well_formed w \<Longrightarrow> well_formed (snd (state_subscribe k h w))"
  using state_subscribe_evolves[of k h w] by (cases "state_subscribe k h w") (simp add: evolves_def)

lemma well_formed_world_x01: "well_formed world_x01"
  by (simp add: world_x01_def well_formed_on well_formed_init_world)

lemma well_formed_world_x21: "well_formed world_x21"
  by (simp add: world_x21_def well_formed_on well_formed_init_world)


lemma well_formed_world_k1: "well_formed world_k1"
  by (simp add: world_k1_def well_formed_subscribe well_formed_init_world)

lemmas eval_defs =
  events_on_def events_off_def events_emit_def state_set_def state_subscribe_def state_get_def
  registry_lookup_def object_prototype_keys_def object_prototype_slot_def store_slot_def
  store_read_def store_write_def utils_log_def Let_def init_world_def for_each.simps
  handlers_of_def subscribers_of_def example_handlers_def

subsection \<open>Event bus\<close>

lemma emit_unknown_topic:
  "events w T = None \<Longrightarrow> T \<notin> set object_prototype_keys \<Longrightarrow>
   events_emit cb T d w = (None, [], utils_log [LStr ''Event:'', LStr T, LVal d] w)"
  by (simp add: events_emit_def registry_lookup_def utils_log_def)

lemma emit_plain:
  assumes wf: "well_formed w" and T: "T \<notin> set object_prototype_keys"
    and pas: "\<forall>g\<in>set (handlers_of w T). H g d = []"
  shows "events_emit (call (Suc n) H) T d w =
           (None, map (\<lambda>g. (g, d)) (handlers_of w T),
            (utils_log [LStr ''Event:'', LStr T, LVal d] w)
              \<lparr>invoked := invoked w @ map (\<lambda>g. (g, d)) (handlers_of w T)\<rparr>)"
proof (cases "events w T")
  case None
  then show ?thesis using emit_unknown_topic[OF None T] by (simp add: handlers_of_def utils_log_def)
next
  case (Some r)
  have hs: "handlers_of w T = arrays w r" using Some by (simp add: handlers_of_def)
  have i: "invoked (utils_log [LStr ''Event:'', LStr T, LVal d] w) = invoked w"
    by (simp add: utils_log_def)
  have "\<forall>g\<in>set (arrays w r). H g d = []" using pas hs by simp
  then show ?thesis
    using emit_refines[OF call_orderly wf Some, of "Suc n" H d] hs i
      snapshot_dispatch_plain[of "arrays w r" H d n "utils_log [LStr ''Event:'', LStr T, LVal d] w"]
    by simp
qed

lemma registered_not_inherited:
  "well_formed w \<Longrightarrow> handlers_of w T \<noteq> [] \<Longrightarrow> T \<notin> set object_prototype_keys"
  by (auto simp add: well_formed_def handlers_of_def split: option.splits)

lemma on_appends:
  "T \<notin> set object_prototype_keys \<Longrightarrow>
   fst (events_on T h w) = None \<and> handlers_of (snd (events_on T h w)) T = handlers_of w T @ [h]"
  by (simp add: events_on_def registry_lookup_def handlers_of_def Let_def split: option.splits)

lemma emit_invokes_registered:
  assumes "well_formed w" and "T \<notin> set object_prototype_keys"
    and "\<forall>g\<in>set (handlers_of w T). \<forall>w0. fst (call n H g d w0) = None"
  shows "\<exists>w'. events_emit (call n H) T d w = (None, map (\<lambda>g. (g, d)) (handlers_of w T), w')"
proof (cases "events w T")
  case None
  then show ?thesis using emit_unknown_topic[OF None assms(2)] by (simp add: handlers_of_def)
next
  case (Some r)
  then have hs: "handlers_of w T = arrays w r" by (simp add: handlers_of_def)
  show ?thesis
    using emit_refines[OF call_orderly assms(1) Some, of n H d] hs
      snapshot_dispatch_normal[of "arrays w r" "call n H" d] assms(3)
    by simp
qed

lemma emit_self_unregister:
  assumes wf: "well_formed w"
    and hs: "handlers_of w T = pre @ h # post"
    and h: "H h d = [DoOff T h]"
    and others: "\<forall>g\<in>set (pre @ post). g \<noteq> h \<and> H g d = []"
  shows "\<exists>w'. events_emit (call (Suc n) H) T d w = (None, map (\<lambda>g. (g, d)) (pre @ h # post), w') \<and>
              handlers_of w' T = pre @ post"
proof -
  let ?cb = "call (Suc n) H"
  let ?w0 = "utils_log [LStr ''Event:'', LStr T, LVal d] w"
  from hs obtain r where r: "events w T = Some r" and ar: "arrays w r = pre @ h # post"
    by (auto simp add: handlers_of_def split: option.splits)
  have em: "events_emit ?cb T d w = snapshot_dispatch ?cb (pre @ h # post) d ?w0"
    using emit_refines[OF call_orderly wf r] ar by simp
  have r0: "events ?w0 T = Some r" "arrays ?w0 r = pre @ h # post"
    using r ar by (simp_all add: utils_log_def)
  have plain: "\<forall>g\<in>set pre. H g d = []" "\<forall>g\<in>set post. H g d = []"
    using others by simp_all
  let ?wa = "?w0\<lparr>invoked := invoked ?w0 @ map (\<lambda>g. (g, d)) pre\<rparr>"
  have p1: "snapshot_dispatch ?cb pre d ?w0 = (None, map (\<lambda>g. (g, d)) pre, ?wa)"
    using snapshot_dispatch_plain[where H=H and d=d and hs=pre, OF plain(1)] .
  let ?wb = "?wa\<lparr>invoked := invoked ?wa @ [(h, d)]\<rparr>"
  let ?w1 = "?wb\<lparr>next_ref := Suc (next_ref ?wb),
                 arrays := (arrays ?wb)(next_ref ?wb := filter (\<lambda>g. g \<noteq> h) (arrays ?wb r)),
                 events := (events ?wb)(T \<mapsto> next_ref ?wb)\<rparr>"
  have ch: "?cb h d ?wa = (None, ?w1)"
    using h r0 by (simp add: events_off_def registry_lookup_def)
  let ?w2 = "?w1\<lparr>invoked := invoked ?w1 @ map (\<lambda>g. (g, d)) post\<rparr>"
  have p3: "snapshot_dispatch ?cb post d ?w1 = (None, map (\<lambda>g. (g, d)) post, ?w2)"
    using snapshot_dispatch_plain[where H=H and d=d and hs=post, OF plain(2)] .
  have "snapshot_dispatch ?cb (h # post) d ?wa = (None, map (\<lambda>g. (g, d)) (h # post), ?w2)"
    using ch p3 by simp
  then have all: "snapshot_dispatch ?cb (pre @ h # post) d ?w0 = (None, map (\<lambda>g. (g, d)) (pre @ h # post), ?w2)"
    using snapshot_dispatch_append[OF p1, of "h # post"] by simp
  have f: "filter (\<lambda>g. g \<noteq> h) (pre @ h # post) = pre @ post"
    using others by (simp add: filter_id_conv)
  have "handlers_of ?w2 T = pre @ post" using r0 f by (simp add: handlers_of_def)
  then show ?thesis using em all by simp
qed

lemma emit_register_during:
  assumes wf: "well_formed w"
    and hs: "handlers_of w T = pre @ h # post"
    and h: "H h d = [DoOn T g']"
    and others: "\<forall>g\<in>set (pre @ post). g \<noteq> h \<and> H g d = []"
  shows "\<exists>w'. events_emit (call (Suc n) H) T d w = (None, map (\<lambda>g. (g, d)) (pre @ h # post), w') \<and>
              handlers_of w' T = pre @ h # post @ [g']"
proof -
  let ?cb = "call (Suc n) H"
  let ?w0 = "utils_log [LStr ''Event:'', LStr T, LVal d] w"
  from hs obtain r where r: "events w T = Some r" and ar: "arrays w r = pre @ h # post"
    by (auto simp add: handlers_of_def split: option.splits)
  have em: "events_emit ?cb T d w = snapshot_dispatch ?cb (pre @ h # post) d ?w0"
    using emit_refines[OF call_orderly wf r] ar by simp
  have r0: "events ?w0 T = Some r" "arrays ?w0 r = pre @ h # post"
    using r ar by (simp_all add: utils_log_def)
  have plain: "\<forall>g\<in>set pre. H g d = []" "\<forall>g\<in>set post. H g d = []"
    using others by simp_all
  let ?wa = "?w0\<lparr>invoked := invoked ?w0 @ map (\<lambda>g. (g, d)) pre\<rparr>"
  have p1: "snapshot_dispatch ?cb pre d ?w0 = (None, map (\<lambda>g. (g, d)) pre, ?wa)"
    using snapshot_dispatch_plain[where H=H and d=d and hs=pre, OF plain(1)] .
  let ?wb = "?wa\<lparr>invoked := invoked ?wa @ [(h, d)]\<rparr>"
  let ?w1 = "?wb\<lparr>arrays := (arrays ?wb)(r := arrays ?wb r @ [g'])\<rparr>"
  have ch: "?cb h d ?wa = (None, ?w1)"
    using h r0 by (simp add: events_on_def registry_lookup_def Let_def)
  let ?w2 = "?w1\<lparr>invoked := invoked ?w1 @ map (\<lambda>g. (g, d)) post\<rparr>"
  have p3: "snapshot_dispatch ?cb post d ?w1 = (None, map (\<lambda>g. (g, d)) post, ?w2)"
    using snapshot_dispatch_plain[where H=H and d=d and hs=post, OF plain(2)] .
  have "snapshot_dispatch ?cb (h # post) d ?wa = (None, map (\<lambda>g. (g, d)) (h # post), ?w2)"
    using ch p3 by simp
  then have all: "snapshot_dispatch ?cb (pre @ h # post) d ?w0 = (None, map (\<lambda>g. (g, d)) (pre @ h # post), ?w2)"
    using snapshot_dispatch_append[OF p1, of "h # post"] by simp
  have "handlers_of ?w2 T = pre @ h # post @ [g']" using r0 by (simp add: handlers_of_def)
  then show ?thesis using em all by simp
qed

lemma emit_self_unregister_next:
  assumes wf: "well_formed w"
    and hs: "handlers_of w T = pre @ h # post"
    and h: "H h d = [DoOff T h]"
    and others: "\<forall>g\<in>set (pre @ post). g \<noteq> h \<and> H g d = []"
  shows "\<exists>w' w''. events_emit (call (Suc n) H) T d w = (None, map (\<lambda>g. (g, d)) (pre @ h # post), w') \<and>
              handlers_of w' T = pre @ post \<and>
              events_emit (call (Suc n) H) T d w' = (None, map (\<lambda>g. (g, d)) (pre @ post), w'')"
proof -
  from emit_self_unregister[where H=H and d=d and n=n, OF assms] obtain w' where
    e: "events_emit (call (Suc n) H) T d w = (None, map (\<lambda>g. (g, d)) (pre @ h # post), w')"
    and hs': "handlers_of w' T = pre @ post" by blast
  have ev: "evolves w w'" using events_emit_evolves[OF call_orderly e] .
  then have wf': "well_formed w'" using wf by (simp add: evolves_def)
  have T: "T \<notin> set object_prototype_keys" using registered_not_inherited[OF wf] hs by simp
  have "\<forall>g\<in>set (handlers_of w' T). H g d = []" using hs' others by simp
  from emit_plain[where H=H and d=d and n=n, OF wf' T this] show ?thesis using e hs' by simp
qed

lemma emit_register_during_next:
  assumes wf: "well_formed w"
    and hs: "handlers_of w T = pre @ h # post"
    and h: "H h d = [DoOn T g']"
    and others: "\<forall>g\<in>set (pre @ post @ [g']). g \<noteq> h \<and> H g d = []"
  shows "\<exists>w' w''. events_emit (call (Suc n) H) T d w = (None, map (\<lambda>g. (g, d)) (pre @ h # post), w') \<and>
              handlers_of w' T = pre @ h # post @ [g'] \<and>
              events_emit (call (Suc n) H) T d w' = (None, map (\<lambda>g. (g, d)) (pre @ h # post @ [g']), w'')"
proof -
  have o1: "\<forall>g\<in>set (pre @ post). g \<noteq> h \<and> H g d = []" using others by simp
  from emit_register_during[where H=H and d=d and n=n, OF wf hs h o1] obtain w' where
    e: "events_emit (call (Suc n) H) T d w = (None, map (\<lambda>g. (g, d)) (pre @ h # post), w')"
    and hs': "handlers_of w' T = pre @ h # post @ [g']" by blast
  have ev: "evolves w w'" using events_emit_evolves[OF call_orderly e] .
  then have wf': "well_formed w'" using wf by (simp add: evolves_def)
  have o2: "\<forall>g\<in>set (pre @ (post @ [g'])). g \<noteq> h \<and> H g d = []" using others by simp
  from emit_register_during[where H=H and d=d and n=n and post="post @ [g']", OF wf' _ h o2] hs' obtain w'' where
    "events_emit (call (Suc n) H) T d w' = (None, map (\<lambda>g. (g, d)) (pre @ h # post @ [g']), w'')"
    by auto
  then show ?thesis using e hs' by blast
qed

lemma off_removes_every_occurrence:
  "T \<notin> set object_prototype_keys \<Longrightarrow>
   fst (events_off T h w) = None \<and>
   handlers_of (snd (events_off T h w)) T = filter (\<lambda>g. g \<noteq> h) (handlers_of w T)"
  by (simp add: events_off_def registry_lookup_def handlers_of_def split: option.splits)

lemma off_unknown_topic:
  "events w T = None \<Longrightarrow> T \<notin> set object_prototype_keys \<Longrightarrow> events_off T h w = (None, w)"
  by (simp add: events_off_def registry_lookup_def)

lemma off_other_topics:
  "well_formed w \<Longrightarrow> T' \<noteq> T \<Longrightarrow> handlers_of (snd (events_off T h w)) T' = handlers_of w T'"
  by (auto simp add: events_off_def registry_lookup_def handlers_of_def well_formed_def
      split: option.splits)

lemma emit_after_off:
  assumes "well_formed w" and "T \<notin> set object_prototype_keys"
    and "events_emit (call n H) T d (snd (events_off T h w)) = (err, calls, w')"
  shows "h \<notin> fst ` set calls"
proof -
  let ?w1 = "snd (events_off T h w)"
  have wf1: "well_formed ?w1"
    using events_off_evolves[of T h w] assms(1) by (cases "events_off T h w") (simp add: evolves_def)
  have hs: "handlers_of ?w1 T = filter (\<lambda>g. g \<noteq> h) (handlers_of w T)"
    using off_removes_every_occurrence[OF assms(2)] by simp
  show ?thesis
  proof (cases "events ?w1 T")
    case None
    have "calls = []" using emit_unknown_topic[OF None assms(2), of "call n H" d] assms(3) by simp
    then show ?thesis by simp
  next
    case (Some r)
    have ar: "arrays ?w1 r = filter (\<lambda>g. g \<noteq> h) (handlers_of w T)"
      using Some hs by (simp add: handlers_of_def)
    have em: "events_emit (call n H) T d ?w1 =
        snapshot_dispatch (call n H) (arrays ?w1 r) d (utils_log [LStr ''Event:'', LStr T, LVal d] ?w1)"
      using emit_refines[OF call_orderly wf1 Some] .
    have sd: "snapshot_dispatch (call n H) (arrays ?w1 r) d (utils_log [LStr ''Event:'', LStr T, LVal d] ?w1) =
        (err, calls, w')"
      using assms(3) unfolding em .
    have c: "calls = map (\<lambda>g. (g, d)) (take (length calls) (arrays ?w1 r))"
      using snapshot_dispatch_calls[OF sd] by blast
    have "fst ` set calls = set (take (length calls) (arrays ?w1 r))"
    proof -
      have "map fst calls = take (length calls) (arrays ?w1 r)"
        by (subst c) (simp add: comp_def)
      then show ?thesis by (metis list.set_map)
    qed
    then have "fst ` set calls \<subseteq> set (arrays ?w1 r)" using set_take_subset by fastforce
    then show ?thesis unfolding ar by auto
  qed
qed

lemma inherited_topic_throws:
  "well_formed w \<Longrightarrow> T \<in> set object_prototype_keys \<Longrightarrow>
   fst (events_on T h w) = Some TypeError \<and> fst (events_off T h w) = Some TypeError \<and>
   fst (events_emit cb T d w) = Some TypeError \<and> fst (state_subscribe T h w) = Some TypeError \<and>
   fst (state_set cb T d w) = Some TypeError"
proof -
  assume wf: "well_formed w" and T: "T \<in> set object_prototype_keys"
  have e: "events w T = None" using wf T by (cases "events w T") (auto simp add: well_formed_def)
  have l: "listeners w T = None" using wf T by (cases "listeners w T") (auto simp add: well_formed_def)
  have l2: "listeners (store_write T d w) T = None"
    using l by (simp add: store_write_def split: slot.splits val.splits)
  show ?thesis using e l l2 T
    by (simp add: events_on_def events_off_def events_emit_def state_subscribe_def state_set_def
        registry_lookup_def utils_log_def Let_def)
qed

subsection \<open>State store\<close>

lemma get_unset:
  "store w k = None \<Longrightarrow> store_proto w = ObjectPrototype \<Longrightarrow> k \<notin> set object_prototype_keys \<Longrightarrow>
   state_get k w = Data Undefined"
  by (auto simp add: state_get_def store_read_def store_slot_def object_prototype_slot_def
      object_prototype_keys_def)

lemma get_after_write:
  "k \<noteq> ''__proto__'' \<Longrightarrow> state_get k (store_write k v w) = Data v"
  by (simp add: state_get_def store_read_def store_write_def store_slot_def object_prototype_slot_def
      split: option.splits proto.splits)

lemma get_after_set_unobserved:
  "listeners w k = None \<Longrightarrow> k \<notin> set object_prototype_keys \<Longrightarrow>
   fst (state_set cb k v w) = None \<and> state_get k (snd (snd (state_set cb k v w))) = Data v"
proof -
  assume l: "listeners w k = None" and k: "k \<notin> set object_prototype_keys"
  have kne: "k \<noteq> ''__proto__''" using k by (auto simp add: object_prototype_keys_def)
  let ?w2 = "utils_log [LStr ''State:'', LStr k, LVal v] (store_write k v w)"
  have l2: "listeners ?w2 k = None"
    using l by (simp add: utils_log_def store_write_def split: slot.splits val.splits)
  have "store ?w2 k = Some v"
    using kne by (simp add: utils_log_def store_write_def store_slot_def object_prototype_slot_def
        split: option.splits proto.splits)
  then have "state_get k ?w2 = Data v"
    by (simp add: state_get_def store_read_def store_slot_def)
  then show ?thesis using l2 k by (simp add: state_set_def registry_lookup_def Let_def)
qed

subsection \<open>Contents of the analytics queue\<close>

lemma queue_analytics_log [simp]: "queue (analytics_log ty pl now path w) = queue w"
  by (simp add: analytics_log_def utils_log_def Let_def)

lemma contents_analytics_log:
  "qarrays (analytics_log ty pl now path w) (queue w) =
     (let q = qarrays w (queue w) @ [build_event ty pl now path]
      in if length q > MAX_QUEUE then tl q else q)"
  by (simp add: analytics_log_def utils_log_def Let_def)

lemma queue_log_all [simp]: "queue (log_all cs w) = queue w"
  by (induction cs w rule: log_all.induct) simp_all

lemma contents_log_all:
  "length (qarrays w (queue w)) \<le> MAX_QUEUE \<Longrightarrow>
   qarrays (log_all cs w) (queue w) =
     drop (length (qarrays w (queue w) @ map event_of cs) - MAX_QUEUE)
          (qarrays w (queue w) @ map event_of cs)"
proof (induction cs w rule: log_all.induct)
  case (1 w)
  then show ?case by simp
next
  case (2 ty pl now path cs w)
  let ?q = "qarrays w (queue w)"
  let ?e = "build_event ty pl now path"
  let ?w1 = "analytics_log ty pl now path w"
  have q1: "qarrays ?w1 (queue ?w1) = (if length ?q < MAX_QUEUE then ?q @ [?e] else tl (?q @ [?e]))"
    using contents_analytics_log[of ty pl now path w] by (simp add: Let_def)
  have len1: "length (qarrays ?w1 (queue ?w1)) \<le> MAX_QUEUE"
    using "2.prems" q1 by (auto simp: MAX_QUEUE_def)
  have ih: "qarrays (log_all cs ?w1) (queue ?w1) =
     drop (length (qarrays ?w1 (queue ?w1) @ map event_of cs) - MAX_QUEUE)
          (qarrays ?w1 (queue ?w1) @ map event_of cs)"
    using "2.IH"[OF len1] .
  have lhs: "qarrays (log_all ((ty, pl, now, path) # cs) w) (queue w) = qarrays (log_all cs ?w1) (queue ?w1)"
    by simp
  have ev: "map event_of ((ty, pl, now, path) # cs) = ?e # map event_of cs"
    by (simp add: event_of_def)
  show ?case
  proof (cases "length ?q < MAX_QUEUE")
    case True
    then have a: "qarrays ?w1 (queue ?w1) @ map event_of cs = ?q @ map event_of ((ty, pl, now, path) # cs)"
      using q1 ev by simp
    show ?thesis using ih by (simp only: lhs a)
  next
    case False
    with "2.prems" have full: "length ?q = MAX_QUEUE" by simp
    then obtain x xs where q: "?q = x # xs" by (cases ?q) (auto simp: MAX_QUEUE_def)
    let ?ys = "xs @ ?e # map event_of cs"
    have a: "qarrays ?w1 (queue ?w1) @ map event_of cs = ?ys"
      using q1 False q by simp
    have b: "?q @ map event_of ((ty, pl, now, path) # cs) = x # ?ys"
      using q ev by simp
    have c: "MAX_QUEUE \<le> length ?ys" using full q by simp
    have d: "drop (length (x # ?ys) - MAX_QUEUE) (x # ?ys) = drop (length ?ys - MAX_QUEUE) ?ys"
      using c by (simp add: Suc_diff_le)
    show ?thesis using ih by (simp only: lhs a b d)
  qed
qed


lemma contents_fifty_one:
  assumes "qarrays w (queue w) = []"
  shows "qarrays (log_all ((''t1'', p0, t0, u0) # map (\<lambda>i. (''t2'', p i, t i, u i)) [1..<51]) w) (queue w) =
           map (\<lambda>i. build_event ''t2'' (p i) (t i) (u i)) [1..<51]"
proof -
  let ?cs = "(''t1'', p0, t0, u0) # map (\<lambda>i. (''t2'', p i, t i, u i)) [1..<51]"
  have len: "length (qarrays w (queue w)) \<le> MAX_QUEUE" using assms by simp
  have "length ?cs = 51" by simp
  then have n: "length (qarrays w (queue w) @ map event_of ?cs) - MAX_QUEUE = 1"
    using assms by (simp add: MAX_QUEUE_def)
  have m: "map event_of (map (\<lambda>i. (''t2'', p i, t i, u i)) [1..<51]) =
           map (\<lambda>i. build_event ''t2'' (p i) (t i) (u i)) [1..<51]"
    by (simp add: event_of_def)
  have "qarrays (log_all ?cs w) (queue w) = drop 1 (qarrays w (queue w) @ map event_of ?cs)"
    using contents_log_all[OF len, of ?cs] by (simp only: n)
  also have "\<dots> = map event_of (map (\<lambda>i. (''t2'', p i, t i, u i)) [1..<51])"
    using assms by simp
  finally show ?thesis using m by simp
qed

lemma log_all_array_mutate:
  "r \<noteq> queue w \<Longrightarrow> log_all cs (array_mutate r f w) = array_mutate r f (log_all cs w)"
proof (induction cs w rule: log_all.induct)
  case (1 w)
  then show ?case by simp
next
  case (2 ty pl now path cs w)
  have "analytics_log ty pl now path (array_mutate r f w) = array_mutate r f (analytics_log ty pl now path w)"
    using "2.prems" by (simp add: analytics_log_def array_mutate_def utils_log_def Let_def fun_upd_twist)
  then show ?case using 2 by simp
qed

subsection \<open>Subscribers that only record analytics\<close>

text \<open>
  A body that only records analytics returns normally and leaves the store and the
  subscriber lists as they were; the call itself is recorded.
\<close>

lemma exec_logs_only:
  "logs_only c \<Longrightarrow>
   \<exists>w'. exec cb c w = (None, w') \<and> invoked w' = invoked w \<and> listeners w' = listeners w \<and>
        arrays w' = arrays w \<and> store w' = store w \<and> store_proto w' = store_proto w"
  by (cases c) (simp_all add: analytics_log_def utils_log_def Let_def)

lemma run_logs_only:
  "list_all logs_only cs \<Longrightarrow>
   \<exists>w'. run cb cs w = (None, w') \<and> invoked w' = invoked w \<and> listeners w' = listeners w \<and>
        arrays w' = arrays w \<and> store w' = store w \<and> store_proto w' = store_proto w"
proof (induction cs arbitrary: w)
  case Nil
  then show ?case by simp
next
  case (Cons c cs)
  from exec_logs_only[of c cb w] Cons.prems obtain w1 where
    e: "exec cb c w = (None, w1)" and k1: "invoked w1 = invoked w" "listeners w1 = listeners w"
    "arrays w1 = arrays w" "store w1 = store w" "store_proto w1 = store_proto w" by auto
  from Cons.IH[of w1] Cons.prems obtain w' where
    r: "run cb cs w1 = (None, w')" and k2: "invoked w' = invoked w1" "listeners w' = listeners w1"
    "arrays w' = arrays w1" "store w' = store w1" "store_proto w' = store_proto w1" by auto
  show ?case using e r k1 k2 by simp
qed

lemma call_logs_only:
  "list_all logs_only (H h d) \<Longrightarrow>
   \<exists>w'. call (Suc n) H h d w = (None, w') \<and> invoked w' = invoked w @ [(h, d)] \<and>
        listeners w' = listeners w \<and> arrays w' = arrays w \<and> store w' = store w \<and>
        store_proto w' = store_proto w"
  using run_logs_only[of "H h d" "call n H" "w\<lparr>invoked := invoked w @ [(h, d)]\<rparr>"] by auto

lemma snapshot_dispatch_logs_only:
  "(\<forall>g\<in>set hs. list_all logs_only (H g d)) \<Longrightarrow>
   \<exists>w'. snapshot_dispatch (call (Suc n) H) hs d w = (None, map (\<lambda>g. (g, d)) hs, w') \<and>
        invoked w' = invoked w @ map (\<lambda>g. (g, d)) hs \<and> listeners w' = listeners w \<and>
        arrays w' = arrays w \<and> store w' = store w \<and> store_proto w' = store_proto w"
proof (induction hs arbitrary: w)
  case Nil
  then show ?case by simp
next
  case (Cons h hs)
  from call_logs_only[of H h d n w] Cons.prems obtain w1 where
    c: "call (Suc n) H h d w = (None, w1)" and k1: "invoked w1 = invoked w @ [(h, d)]"
    "listeners w1 = listeners w" "arrays w1 = arrays w" "store w1 = store w"
    "store_proto w1 = store_proto w" by (auto simp del: call.simps)
  from Cons.IH[of w1] Cons.prems obtain w' where
    r: "snapshot_dispatch (call (Suc n) H) hs d w1 = (None, map (\<lambda>g. (g, d)) hs, w')"
    and k2: "invoked w' = invoked w1 @ map (\<lambda>g. (g, d)) hs" "listeners w' = listeners w1"
    "arrays w' = arrays w1" "store w' = store w1" "store_proto w' = store_proto w1"
    by (auto simp del: call.simps)
  have "snapshot_dispatch (call (Suc n) H) (h # hs) d w = (None, (h, d) # map (\<lambda>g. (g, d)) hs, w')"
    by (simp only: snapshot_dispatch.simps c r prod.case option.case)
  then show ?case using k1 k2 by (simp del: call.simps)
qed

lemma set_refines_subscribers:
  assumes "well_formed w" and "subscribers_of w k \<noteq> []"
  shows "state_set (call n H) k v w =
           snapshot_dispatch (call n H) (subscribers_of w k) v
             (utils_log [LStr ''State:'', LStr k, LVal v] (store_write k v w))"
proof -
  from assms(2) obtain r where r: "listeners w k = Some r" and s: "subscribers_of w k = arrays w r"
    by (auto simp add: subscribers_of_def split: option.splits)
  show ?thesis using set_refines[OF call_orderly assms(1) r, of n H v] s by simp
qed

lemma subscribed_key_written:
  assumes "well_formed w" and "listeners w k = Some r"
  shows "store (utils_log [LStr ''State:'', LStr k, LVal v] (store_write k v w)) k = Some v"
    and "listeners (utils_log [LStr ''State:'', LStr k, LVal v] (store_write k v w)) = listeners w"
    and "arrays (utils_log [LStr ''State:'', LStr k, LVal v] (store_write k v w)) = arrays w"
    and "invoked (utils_log [LStr ''State:'', LStr k, LVal v] (store_write k v w)) = invoked w"
proof -
  have kne: "k \<noteq> ''__proto__''"
    using assms by (auto simp add: well_formed_def object_prototype_keys_def)
  show "store (utils_log [LStr ''State:'', LStr k, LVal v] (store_write k v w)) k = Some v"
    using kne by (simp add: utils_log_def store_write_def store_slot_def object_prototype_slot_def
        split: option.splits proto.splits)
  show "listeners (utils_log [LStr ''State:'', LStr k, LVal v] (store_write k v w)) = listeners w"
    by (simp add: utils_log_def store_write_def split: slot.splits val.splits)
  show "arrays (utils_log [LStr ''State:'', LStr k, LVal v] (store_write k v w)) = arrays w"
    by (simp add: utils_log_def store_write_def split: slot.splits val.splits)
  show "invoked (utils_log [LStr ''State:'', LStr k, LVal v] (store_write k v w)) = invoked w"
    by (simp add: utils_log_def store_write_def split: slot.splits val.splits)
qed

lemma set_logs_only:
  assumes wf: "well_formed w" and ne: "subscribers_of w k \<noteq> []"
    and q: "\<forall>g\<in>set (subscribers_of w k). list_all logs_only (H g v)"
  shows "\<exists>w1. state_set (call (Suc n) H) k v w = (None, map (\<lambda>g. (g, v)) (subscribers_of w k), w1) \<and>
              state_get k w1 = Data v \<and> subscribers_of w1 k = subscribers_of w k \<and>
              invoked w1 = invoked w @ map (\<lambda>g. (g, v)) (subscribers_of w k) \<and> well_formed w1"
proof -
  let ?w0 = "utils_log [LStr ''State:'', LStr k, LVal v] (store_write k v w)"
  from ne obtain r where r: "listeners w k = Some r" and s: "subscribers_of w k = arrays w r"
    by (auto simp add: subscribers_of_def split: option.splits)
  note w0 = subscribed_key_written[OF wf r, of v]
  from snapshot_dispatch_logs_only[where H=H and d=v and hs="subscribers_of w k" and n=n and w="?w0", OF q]
  obtain w1 where sd: "snapshot_dispatch (call (Suc n) H) (subscribers_of w k) v ?w0 =
        (None, map (\<lambda>g. (g, v)) (subscribers_of w k), w1)"
    and k: "invoked w1 = invoked ?w0 @ map (\<lambda>g. (g, v)) (subscribers_of w k)"
      "listeners w1 = listeners ?w0" "arrays w1 = arrays ?w0" "store w1 = store ?w0" by blast
  have st: "state_set (call (Suc n) H) k v w = (None, map (\<lambda>g. (g, v)) (subscribers_of w k), w1)"
    using set_refines_subscribers[OF wf ne, of "Suc n" H v] sd by (simp del: call.simps)
  have g: "state_get k w1 = Data v"
    using k(4) w0(1) by (simp add: state_get_def store_read_def store_slot_def)
  have so: "subscribers_of w1 k = subscribers_of w k"
    using k(2,3) w0(2,3) r by (simp add: subscribers_of_def)
  have wf1: "well_formed w1"
    using state_set_evolves[OF call_orderly st] wf by (simp add: evolves_def)
  show ?thesis using st g so k(1) w0(4) wf1 by simp
qed

text \<open>\<open>subscribe\<close> on a key that is not a property name of \<open>Object.prototype\<close>.\<close>

lemma subscribe_returns:
  assumes "k \<notin> set object_prototype_keys"
  shows "\<exists>w1. state_subscribe k fn w = (None, w1) \<and> invoked w1 = invoked w \<and>
           store w1 = store w \<and> store_proto w1 = store_proto w \<and> events w1 = events w \<and>
           console w1 = console w \<and> qarrays w1 = qarrays w \<and> queue w1 = queue w \<and>
           subscribers_of w1 k = subscribers_of w k @ [fn]"
  using assms
  by (cases "listeners w k")
     (simp_all add: state_subscribe_def registry_lookup_def Let_def subscribers_of_def)

lemma count_list_map_fst_pair: "count_list (map fst (map (\<lambda>g. (g, v)) hs)) h = count_list hs h"
  by (induction hs) simp_all

lemmas store_eval_defs =
  state_set_def state_subscribe_def state_get_def set_twice_def
  registry_lookup_def object_prototype_keys_def object_prototype_slot_def store_slot_def
  store_read_def store_write_def utils_log_def analytics_log_def build_event_def MAX_QUEUE_def
  Let_def init_world_def for_each.simps subscribers_of_def example_subscribers_def
  world_k4_def world_k6_def world_k8_def world_k46_def world_k66_def

lemma well_formed_world_k6: "well_formed world_k6"
  by (simp add: world_k6_def well_formed_subscribe well_formed_init_world)

section \<open>The claims\<close>

text \<open>
  C1. Snapshot dispatch. For a topic with handlers registered, \<open>emit\<close> is the dispatch over
  the handler sequence as it stands when \<open>emit\<close> is called, whatever the handlers do to the
  registry meanwhile (\<open>H\<close> is arbitrary): the calls made in the pass are an initial part of
  that sequence, and all of it when no handler throws. In particular, when one handler
  unregisters itself and the others leave the core alone, every handler of the sequence
  still runs in this pass, the sequence registered afterwards lacks that handler, and
  the next \<open>emit\<close> calls exactly the remaining ones; when one handler registers a new
  handler \<open>g'\<close>, the new handler is not called in this pass and is called last in the next.
\<close>

theorem emit_dispatches_over_snapshot:
  assumes "well_formed w" and "handlers_of w T \<noteq> []"
  shows "events_emit (call n H) T d w =
           snapshot_dispatch (call n H) (handlers_of w T) d
             (utils_log [LStr ''Event:'', LStr T, LVal d] w) \<and>
         (\<forall>err calls w'. events_emit (call n H) T d w = (err, calls, w') \<longrightarrow>
            calls = map (\<lambda>h. (h, d)) (take (length calls) (handlers_of w T)) \<and>
            (err = None \<longrightarrow> calls = map (\<lambda>h. (h, d)) (handlers_of w T)) \<and>
            well_formed w') \<and>
         (\<forall>pre h post.
            handlers_of w T = pre @ h # post \<and> H h d = [DoOff T h] \<and>
            (\<forall>g\<in>set (pre @ post). g \<noteq> h \<and> H g d = []) \<longrightarrow>
            (\<exists>w' w''.
               events_emit (call (Suc n) H) T d w = (None, map (\<lambda>g. (g, d)) (pre @ h # post), w') \<and>
               handlers_of w' T = pre @ post \<and>
               events_emit (call (Suc n) H) T d w' = (None, map (\<lambda>g. (g, d)) (pre @ post), w''))) \<and>
         (\<forall>pre h post g'.
            handlers_of w T = pre @ h # post \<and> H h d = [DoOn T g'] \<and>
            (\<forall>g\<in>set (pre @ post @ [g']). g \<noteq> h \<and> H g d = []) \<longrightarrow>
            (\<exists>w' w''.
               events_emit (call (Suc n) H) T d w = (None, map (\<lambda>g. (g, d)) (pre @ h # post), w') \<and>
               handlers_of w' T = pre @ h # post @ [g'] \<and>
               events_emit (call (Suc n) H) T d w' =
                 (None, map (\<lambda>g. (g, d)) (pre @ h # post @ [g']), w'')))"
proof -
  from assms(2) obtain r where r: "events w T = Some r" and hs: "handlers_of w T = arrays w r"
    by (auto simp add: handlers_of_def split: option.splits)
  have a: "events_emit (call n H) T d w =
           snapshot_dispatch (call n H) (handlers_of w T) d (utils_log [LStr ''Event:'', LStr T, LVal d] w)"
    using emit_refines[OF call_orderly assms(1) r] hs by simp
  have b: "calls = map (\<lambda>h. (h, d)) (take (length calls) (handlers_of w T)) \<and>
            (err = None \<longrightarrow> calls = map (\<lambda>h. (h, d)) (handlers_of w T)) \<and> well_formed w'"
    if e: "events_emit (call n H) T d w = (err, calls, w')" for err calls w'
  proof -
    have "evolves w w'" using events_emit_evolves[OF call_orderly e] .
    then have "well_formed w'" using assms(1) by (simp add: evolves_def)
    moreover have "calls = map (\<lambda>h. (h, d)) (take (length calls) (handlers_of w T)) \<and>
            (err = None \<longrightarrow> calls = map (\<lambda>h. (h, d)) (handlers_of w T))"
      using snapshot_dispatch_calls[OF e[unfolded a]] .
    ultimately show ?thesis by simp
  qed
  have c: "\<exists>w' w''.
               events_emit (call (Suc n) H) T d w = (None, map (\<lambda>g. (g, d)) (pre @ h # post), w') \<and>
               handlers_of w' T = pre @ post \<and>
               events_emit (call (Suc n) H) T d w' = (None, map (\<lambda>g. (g, d)) (pre @ post), w'')"
    if "handlers_of w T = pre @ h # post \<and> H h d = [DoOff T h] \<and>
        (\<forall>g\<in>set (pre @ post). g \<noteq> h \<and> H g d = [])" for pre h post
    using emit_self_unregister_next[where H=H and d=d and n=n and pre=pre and h=h and post=post and T=T, OF assms(1)] that by blast
  have d: "\<exists>w' w''.
               events_emit (call (Suc n) H) T d w = (None, map (\<lambda>g. (g, d)) (pre @ h # post), w') \<and>
               handlers_of w' T = pre @ h # post @ [g'] \<and>
               events_emit (call (Suc n) H) T d w' =
                 (None, map (\<lambda>g. (g, d)) (pre @ h # post @ [g']), w'')"
    if "handlers_of w T = pre @ h # post \<and> H h d = [DoOn T g'] \<and>
        (\<forall>g\<in>set (pre @ post @ [g']). g \<noteq> h \<and> H g d = [])" for pre h post g'
    using emit_register_during_next[where H=H and d=d and n=n and pre=pre and h=h and post=post and T=T and g'=g', OF assms(1)] that by blast
  show ?thesis using a b c d by blast
qed

theorem emit_dispatches_over_snapshot_witness:
  "well_formed world_x01 \<and> handlers_of world_x01 ''x'' = [0, 1] \<and>
   events_emit (call (Suc 0) example_handlers) ''x'' (Num 5) world_x01 =
     snapshot_dispatch (call (Suc 0) example_handlers) [0, 1] (Num 5)
       (utils_log [LStr ''Event:'', LStr ''x'', LVal (Num 5)] world_x01) \<and>
   fst (snd (events_emit (call (Suc 0) example_handlers) ''x'' (Num 5) world_x01)) = [(0, Num 5), (1, Num 5)] \<and>
   handlers_of (snd (snd (events_emit (call (Suc 0) example_handlers) ''x'' (Num 5) world_x01))) ''x'' = [1] \<and>
   fst (snd (events_emit (call (Suc 0) example_handlers) ''x'' (Num 5)
     (snd (snd (events_emit (call (Suc 0) example_handlers) ''x'' (Num 5) world_x01))))) = [(1, Num 5)] \<and>
   handlers_of world_x21 ''x'' = [2, 1] \<and>
   fst (snd (events_emit (call (Suc 0) example_handlers) ''x'' (Num 5) world_x21)) = [(2, Num 5), (1, Num 5)] \<and>
   handlers_of (snd (snd (events_emit (call (Suc 0) example_handlers) ''x'' (Num 5) world_x21))) ''x'' = [2, 1, 3] \<and>
   fst (snd (events_emit (call (Suc 0) example_handlers) ''x'' (Num 5)
     (snd (snd (events_emit (call (Suc 0) example_handlers) ''x'' (Num 5) world_x21))))) =
     [(2, Num 5), (1, Num 5), (3, Num 5)]"
proof -
  have h1: "well_formed world_x01" by (rule well_formed_world_x01)
  have h2: "handlers_of world_x01 ''x'' = [0, 1]" by (simp add: world_x01_def eval_defs)
  have h3: "handlers_of world_x01 ''x'' \<noteq> []" using h2 by simp
  have a: "events_emit (call (Suc 0) example_handlers) ''x'' (Num 5) world_x01 =
     snapshot_dispatch (call (Suc 0) example_handlers) [0, 1] (Num 5)
       (utils_log [LStr ''Event:'', LStr ''x'', LVal (Num 5)] world_x01)"
    using emit_dispatches_over_snapshot[OF h1 h3, THEN conjunct1, of "Suc 0" example_handlers "Num 5"] h2 by simp
  have b: "fst (snd (events_emit (call (Suc 0) example_handlers) ''x'' (Num 5) world_x01)) = [(0, Num 5), (1, Num 5)]"
    by (simp add: world_x01_def eval_defs)
  have c: "handlers_of (snd (snd (events_emit (call (Suc 0) example_handlers) ''x'' (Num 5) world_x01))) ''x'' = [1]"
    by (simp add: world_x01_def eval_defs)
  have d: "fst (snd (events_emit (call (Suc 0) example_handlers) ''x'' (Num 5)
     (snd (snd (events_emit (call (Suc 0) example_handlers) ''x'' (Num 5) world_x01))))) = [(1, Num 5)]"
    by (simp add: world_x01_def eval_defs)
  have e: "handlers_of world_x21 ''x'' = [2, 1]" by (simp add: world_x21_def eval_defs)
  have f: "fst (snd (events_emit (call (Suc 0) example_handlers) ''x'' (Num 5) world_x21)) = [(2, Num 5), (1, Num 5)]"
    by (simp add: world_x21_def eval_defs)
  have g: "handlers_of (snd (snd (events_emit (call (Suc 0) example_handlers) ''x'' (Num 5) world_x21))) ''x'' = [2, 1, 3]"
    by (simp add: world_x21_def eval_defs)
  have h: "fst (snd (events_emit (call (Suc 0) example_handlers) ''x'' (Num 5)
     (snd (snd (events_emit (call (Suc 0) example_handlers) ''x'' (Num 5) world_x21))))) =
     [(2, Num 5), (1, Num 5), (3, Num 5)]"
    by (simp add: world_x21_def eval_defs)
  show ?thesis using h1 h2 a b c d e f g h by blast
qed

text \<open>
  C2, as amended. Starting from an empty queue, 51 calls of \<open>log\<close>, the first with type
  \<open>t1\<close> and the next 50 with type \<open>t2\<close>, leave a queue of exactly 50 records: its head is the
  record built by the first \<open>t2\<close> call (the second call overall), its last entry the record
  built by the 50th \<open>t2\<close> call. Call \<open>i\<close> (counted from 0) has payload \<open>p i\<close>, clock reading
  \<open>t i\<close> and path \<open>u i\<close>.
\<close>

theorem log_fifty_one_keeps_fifty_t2:
  assumes "qarrays w (queue w) = []"
  shows "(let w' = log_all ((''t1'', p0, t0, u0) # map (\<lambda>i. (''t2'', p i, t i, u i)) [1..<51]) w;
              q = qarrays w' (queue w')
          in length q = 50 \<and>
             hd q = build_event ''t2'' (p 1) (t 1) (u 1) \<and>
             last q = build_event ''t2'' (p 50) (t 50) (u 50))"
proof -
  have "hd (map (\<lambda>i. build_event ''t2'' (p i) (t i) (u i)) [1..<51]) = build_event ''t2'' (p 1) (t 1) (u 1)"
    by (simp add: upt_conv_Cons)
  moreover have "last (map (\<lambda>i. build_event ''t2'' (p i) (t i) (u i)) [1..<51]) = build_event ''t2'' (p 50) (t 50) (u 50)"
    by (simp add: last_map)
  ultimately show ?thesis using contents_fifty_one[OF assms, of p0 t0 u0 p t u] by (simp add: Let_def)
qed

theorem log_fifty_one_keeps_fifty_t2_witness:
  "qarrays init_world (queue init_world) = [] \<and>
   (let w' = log_all ((''t1'', Undefined, 0, ''/'') # map (\<lambda>i. (''t2'', Undefined, int i, ''/'')) [1..<51]) init_world;
        q = qarrays w' (queue w')
    in length q = 50 \<and>
       hd q = build_event ''t2'' Undefined 1 ''/'' \<and>
       last q = build_event ''t2'' Undefined 50 ''/'')"
proof -
  have h: "qarrays init_world (queue init_world) = []" by (simp add: init_world_def)
  show ?thesis using h log_fifty_one_keeps_fifty_t2[OF h, of Undefined 0 "''/''" "\<lambda>i. Undefined" "\<lambda>i. int i" "\<lambda>i. ''/''"] by simp
qed

text \<open>
  C2 as stated puts the record of the second \<open>t2\<close> call at the head. With clock readings
  that tell the calls apart (call \<open>i\<close> reads \<open>i\<close>) the head is the record of the first \<open>t2\<close>
  call: only the \<open>t1\<close> record has been evicted.
\<close>

theorem log_fifty_one_head_is_not_second_t2:
  "\<not> (let w' = log_all ((''t1'', Undefined, 0, ''/'') # map (\<lambda>i. (''t2'', Undefined, int i, ''/'')) [1..<51]) init_world;
          q = qarrays w' (queue w')
      in length q = 50 \<and>
         hd q = build_event ''t2'' Undefined 2 ''/'' \<and>
         last q = build_event ''t2'' Undefined 50 ''/'')"
proof -
  have h: "qarrays init_world (queue init_world) = []" by (simp add: init_world_def)
  have "hd (map (\<lambda>i. build_event ''t2'' Undefined (int i) ''/'') [1..<51]) = build_event ''t2'' Undefined 1 ''/''"
    by (simp add: upt_conv_Cons)
  then show ?thesis
    using contents_fifty_one[OF h, of Undefined 0 "''/''" "\<lambda>i. Undefined" "\<lambda>i. int i" "\<lambda>i. ''/''"]
    by (simp add: Let_def build_event_def)
qed

text \<open>
  C3 at the topic \<open>constructor\<close>, which has no handlers: \<open>events["constructor"]\<close> is the
  inherited function \<open>Object\<close>, which is truthy and has no \<open>forEach\<close>, so \<open>emit\<close> throws a
  \<open>TypeError\<close> where the claim promises a silent no-op. For every topic that is not a
  property name of \<open>Object.prototype\<close> the claim holds: see \<open>emit_unknown_topic\<close>,
  \<open>on_appends\<close> and \<open>emit_invokes_registered\<close>.
\<close>

theorem emit_constructor_topic_throws:
  "events_emit cb ''constructor'' d init_world = (Some TypeError, [], init_world)"
  by (simp add: eval_defs)

text \<open>
  C4 at the keys \<open>constructor\<close> and \<open>__proto__\<close>: before any \<open>set\<close>, \<open>get("constructor")\<close> returns
  the inherited function \<open>Object\<close>, not \<open>undefined\<close>; and after \<open>set("__proto__", 5)\<close> (whose
  assignment the \<open>__proto__\<close> setter ignores) \<open>get("__proto__")\<close> returns \<open>Object.prototype\<close>,
  not 5. For every key that is not a property name of \<open>Object.prototype\<close> the claim holds:
  see \<open>get_unset\<close>, \<open>get_after_write\<close> and \<open>get_after_set_unobserved\<close>.
\<close>

theorem get_inherited_key_is_not_unset:
  "state_get ''constructor'' init_world = Builtin ''constructor'' \<and>
   state_get ''__proto__'' (snd (snd (state_set cb ''__proto__'' (Num 5) init_world))) = Builtin ''__proto__''"
  by (simp add: eval_defs)



text \<open>
  C6. From a queue of at most 50 records (the initial queue is empty), every sequence of
  \<open>log\<close> calls leaves at most 50 records, and they are the most recent ones in creation
  order: the last 50 of the old contents followed by the new records. One call appends
  its record at the tail and, when the queue was full, drops exactly the head. (By
  \<open>well_formed_preserved\<close> the bound also survives every other operation, with callbacks
  that log.)
\<close>

theorem queue_bounded_fifo:
  assumes "length (qarrays w (queue w)) \<le> MAX_QUEUE"
  shows "length (qarrays (log_all cs w) (queue (log_all cs w))) \<le> MAX_QUEUE \<and>
         qarrays (log_all cs w) (queue (log_all cs w)) =
           drop (length (qarrays w (queue w) @ map event_of cs) - MAX_QUEUE)
                (qarrays w (queue w) @ map event_of cs) \<and>
         qarrays (analytics_log ty pl now path w) (queue (analytics_log ty pl now path w)) =
           (if length (qarrays w (queue w)) < MAX_QUEUE
            then qarrays w (queue w) @ [build_event ty pl now path]
            else tl (qarrays w (queue w)) @ [build_event ty pl now path])"
proof -
  have a: "qarrays (log_all cs w) (queue (log_all cs w)) =
           drop (length (qarrays w (queue w) @ map event_of cs) - MAX_QUEUE)
                (qarrays w (queue w) @ map event_of cs)"
    using contents_log_all[OF assms] by simp
  have b: "length (qarrays (log_all cs w) (queue (log_all cs w))) \<le> MAX_QUEUE"
    unfolding a by simp
  have c: "qarrays (analytics_log ty pl now path w) (queue (analytics_log ty pl now path w)) =
           (if length (qarrays w (queue w)) < MAX_QUEUE
            then qarrays w (queue w) @ [build_event ty pl now path]
            else tl (qarrays w (queue w)) @ [build_event ty pl now path])"
  proof (cases "qarrays w (queue w)")
    case Nil
    then show ?thesis by (simp add: contents_analytics_log MAX_QUEUE_def)
  next
    case (Cons x xs)
    then show ?thesis using assms by (auto simp add: contents_analytics_log Let_def)
  qed
  show ?thesis using a b c by blast
qed

theorem queue_bounded_fifo_witness:
  "length (qarrays init_world (queue init_world)) \<le> MAX_QUEUE \<and>
   length (qarrays (log_all [(''a'', Undefined, 1, ''/''), (''b'', Num 2, 2, ''/'')] init_world)
             (queue (log_all [(''a'', Undefined, 1, ''/''), (''b'', Num 2, 2, ''/'')] init_world))) \<le> MAX_QUEUE \<and>
   qarrays (log_all [(''a'', Undefined, 1, ''/''), (''b'', Num 2, 2, ''/'')] init_world)
             (queue (log_all [(''a'', Undefined, 1, ''/''), (''b'', Num 2, 2, ''/'')] init_world)) =
     [build_event ''a'' Undefined 1 ''/'', build_event ''b'' (Num 2) 2 ''/''] \<and>
   qarrays (analytics_log ''a'' Undefined 1 ''/'' init_world) (queue (analytics_log ''a'' Undefined 1 ''/'' init_world)) =
     [build_event ''a'' Undefined 1 ''/'']"
  using queue_bounded_fifo[of init_world "[(''a'', Undefined, 1, ''/''), (''b'', Num 2, 2, ''/'')]" "''a''" Undefined 1 "''/''"]
  by (simp add: init_world_def MAX_QUEUE_def event_of_def)

text \<open>
  C7, as amended. Let key \<open>k\<close> have subscribers. \<open>set(k, v)\<close> writes \<open>v\<close>, logs, and then makes one
  dispatch pass over the subscribers registered at that moment: each is called with \<open>v\<close>, in
  order, once per registration, until one throws. The value is compared with nothing: the
  call of \<open>set(k, v)\<close> that follows, from whatever state the first one left, is that pass
  again, over the subscribers of that state, which are those of before and then the ones
  added in between. When the bodies of the subscribers only record analytics, both calls
  return normally, \<open>get(k)\<close> is \<open>v\<close> after the first, and the functions called during the two
  calls, at any depth of nesting, are exactly the subscribers, in order, each with \<open>v\<close>, once
  per registration and per call of \<open>set\<close>.
\<close>

theorem set_dispatches_on_every_call:
  assumes "well_formed w" and "subscribers_of w k \<noteq> []"
  shows "state_set (call n H) k v w =
           snapshot_dispatch (call n H) (subscribers_of w k) v
             (utils_log [LStr ''State:'', LStr k, LVal v] (store_write k v w)) \<and>
         (\<forall>err calls w1. state_set (call n H) k v w = (err, calls, w1) \<longrightarrow>
            (\<exists>extra. subscribers_of w1 k = subscribers_of w k @ extra) \<and>
            state_set (call n H) k v w1 =
              snapshot_dispatch (call n H) (subscribers_of w1 k) v
                (utils_log [LStr ''State:'', LStr k, LVal v] (store_write k v w1))) \<and>
         ((\<forall>g\<in>set (subscribers_of w k). list_all logs_only (H g v)) \<longrightarrow>
            (\<exists>w1 w2.
               state_set (call (Suc n) H) k v w = (None, map (\<lambda>g. (g, v)) (subscribers_of w k), w1) \<and>
               invoked w1 = invoked w @ map (\<lambda>g. (g, v)) (subscribers_of w k) \<and>
               state_get k w1 = Data v \<and>
               state_set (call (Suc n) H) k v w1 = (None, map (\<lambda>g. (g, v)) (subscribers_of w k), w2) \<and>
               invoked w2 =
                 invoked w @ map (\<lambda>g. (g, v)) (subscribers_of w k) @ map (\<lambda>g. (g, v)) (subscribers_of w k)))"
proof -
  from assms(2) obtain r where r: "listeners w k = Some r" and s: "subscribers_of w k = arrays w r"
    by (auto simp add: subscribers_of_def split: option.splits)
  have rn: "r < next_ref w" using assms(1) r by (simp add: well_formed_def)
  have a: "state_set (call n H) k v w =
           snapshot_dispatch (call n H) (subscribers_of w k) v
             (utils_log [LStr ''State:'', LStr k, LVal v] (store_write k v w))"
    using set_refines_subscribers[OF assms] .
  have b: "(\<exists>extra. subscribers_of w1 k = subscribers_of w k @ extra) \<and>
            state_set (call n H) k v w1 =
              snapshot_dispatch (call n H) (subscribers_of w1 k) v
                (utils_log [LStr ''State:'', LStr k, LVal v] (store_write k v w1))"
    if e: "state_set (call n H) k v w = (err, calls, w1)" for err calls w1
  proof -
    have ev: "evolves w w1" using state_set_evolves[OF call_orderly e] .
    then have wf1: "well_formed w1" and g: "grows w w1" using assms(1) by (simp_all add: evolves_def)
    have l1: "listeners w1 k = Some r" using g r by (simp add: grows_def)
    obtain extra where ex: "arrays w1 r = arrays w r @ extra" using g rn by (auto simp add: grows_def)
    have s1: "subscribers_of w1 k = subscribers_of w k @ extra"
      using l1 ex s by (simp add: subscribers_of_def)
    then have ne1: "subscribers_of w1 k \<noteq> []" using assms(2) by simp
    show ?thesis using s1 set_refines_subscribers[OF wf1 ne1] by blast
  qed
  have c: "\<exists>w1 w2.
               state_set (call (Suc n) H) k v w = (None, map (\<lambda>g. (g, v)) (subscribers_of w k), w1) \<and>
               invoked w1 = invoked w @ map (\<lambda>g. (g, v)) (subscribers_of w k) \<and>
               state_get k w1 = Data v \<and>
               state_set (call (Suc n) H) k v w1 = (None, map (\<lambda>g. (g, v)) (subscribers_of w k), w2) \<and>
               invoked w2 =
                 invoked w @ map (\<lambda>g. (g, v)) (subscribers_of w k) @ map (\<lambda>g. (g, v)) (subscribers_of w k)"
    if q: "\<forall>g\<in>set (subscribers_of w k). list_all logs_only (H g v)"
  proof -
    from set_logs_only[where H=H and v=v and w=w and k=k and n=n, OF assms q] obtain w1 where
      s1: "state_set (call (Suc n) H) k v w = (None, map (\<lambda>g. (g, v)) (subscribers_of w k), w1)"
      and g1: "state_get k w1 = Data v" and so1: "subscribers_of w1 k = subscribers_of w k"
      and i1: "invoked w1 = invoked w @ map (\<lambda>g. (g, v)) (subscribers_of w k)"
      and wf1: "well_formed w1" by blast
    have ne1: "subscribers_of w1 k \<noteq> []" using so1 assms(2) by simp
    have q1: "\<forall>g\<in>set (subscribers_of w1 k). list_all logs_only (H g v)" using q so1 by simp
    from set_logs_only[where H=H and v=v and w=w1 and k=k and n=n, OF wf1 ne1 q1] obtain w2 where
      s2: "state_set (call (Suc n) H) k v w1 = (None, map (\<lambda>g. (g, v)) (subscribers_of w1 k), w2)"
      and i2: "invoked w2 = invoked w1 @ map (\<lambda>g. (g, v)) (subscribers_of w1 k)" by blast
    show ?thesis using s1 g1 i1 s2 i2 so1 by (auto simp del: call.simps)
  qed
  show ?thesis using a b c by blast
qed

text \<open>
  The theorem of C7 at \<open>subscribe("k", f6)\<close>, where \<open>f6\<close> records an analytics event: two calls
  \<open>set("k", 1)\<close> call \<open>f6\<close> twice and nothing else, and the queue holds its two events.
\<close>

theorem set_dispatches_on_every_call_witness:
  "well_formed world_k6 \<and> subscribers_of world_k6 ''k'' = [6] \<and>
   list_all logs_only (example_subscribers 6 (Num 1)) \<and>
   state_get ''k'' (snd (snd (state_set (call (Suc 0) example_subscribers) ''k'' (Num 1) world_k6))) =
     Data (Num 1) \<and>
   invoked (set_twice (call (Suc 0) example_subscribers) ''k'' (Num 1) world_k6) =
     [(6, Num 1), (6, Num 1)] \<and>
   qarrays (set_twice (call (Suc 0) example_subscribers) ''k'' (Num 1) world_k6) 0 =
     [build_event ''seen'' (Num 1) 0 ''/'', build_event ''seen'' (Num 1) 0 ''/'']"
proof -
  have h1: "well_formed world_k6" by (rule well_formed_world_k6)
  have h2: "subscribers_of world_k6 ''k'' = [6]" by (simp add: store_eval_defs)
  have h3: "subscribers_of world_k6 ''k'' \<noteq> []" using h2 by simp
  have h4: "list_all logs_only (example_subscribers 6 (Num 1))" by (simp add: example_subscribers_def)
  have h5: "\<forall>g\<in>set (subscribers_of world_k6 ''k''). list_all logs_only (example_subscribers g (Num 1))"
    using h2 h4 by simp
  from set_dispatches_on_every_call[OF h1 h3, of 0 example_subscribers "Num 1", THEN conjunct2, THEN conjunct2] h5
  obtain w1 w2 where
    s1: "state_set (call (Suc 0) example_subscribers) ''k'' (Num 1) world_k6 =
           (None, map (\<lambda>g. (g, Num 1)) (subscribers_of world_k6 ''k''), w1)"
    and g1: "state_get ''k'' w1 = Data (Num 1)"
    and s2: "state_set (call (Suc 0) example_subscribers) ''k'' (Num 1) w1 =
           (None, map (\<lambda>g. (g, Num 1)) (subscribers_of world_k6 ''k''), w2)"
    and i2: "invoked w2 = invoked world_k6 @ map (\<lambda>g. (g, Num 1)) (subscribers_of world_k6 ''k'') @
               map (\<lambda>g. (g, Num 1)) (subscribers_of world_k6 ''k'')"
    by blast
  have i0: "invoked world_k6 = []" by (simp add: store_eval_defs)
  have a: "state_get ''k'' (snd (snd (state_set (call (Suc 0) example_subscribers) ''k'' (Num 1) world_k6))) =
     Data (Num 1)" using s1 g1 by (simp del: call.simps)
  have b: "invoked (set_twice (call (Suc 0) example_subscribers) ''k'' (Num 1) world_k6) =
     [(6, Num 1), (6, Num 1)]"
    using s1 s2 i2 i0 h2 by (simp add: set_twice_def del: call.simps)
  have c: "qarrays (set_twice (call (Suc 0) example_subscribers) ''k'' (Num 1) world_k6) 0 =
     [build_event ''seen'' (Num 1) 0 ''/'', build_event ''seen'' (Num 1) 0 ''/'']"
    by (simp add: store_eval_defs)
  show ?thesis using h1 h2 h4 a b c by blast
qed

text \<open>
  C7 without the amendment does not hold of every subscriber. After \<open>subscribe("k", f4);
  subscribe("k", f6)\<close>, where \<open>f4\<close> throws, two calls \<open>set("k", 1)\<close> never call \<open>f6\<close>, and the queue
  stays empty. A subscriber \<open>f8\<close> that calls \<open>set("k", 0)\<close> unless \<open>0\<close> is stored is called four times
  during the two calls. \<open>f6\<close> subscribed twice is called four times.
\<close>

theorem set_twice_not_twice_per_subscriber:
  "6 \<in> set (subscribers_of world_k46 ''k'') \<and>
   count_list (map fst (invoked (set_twice (call (Suc (Suc 0)) example_subscribers) ''k'' (Num 1) world_k46))) 6 = 0 \<and>
   qarrays (set_twice (call (Suc (Suc 0)) example_subscribers) ''k'' (Num 1) world_k46) 0 = [] \<and>
   8 \<in> set (subscribers_of world_k8 ''k'') \<and>
   count_list (map fst (invoked (set_twice (call (Suc (Suc 0)) example_subscribers) ''k'' (Num 1) world_k8))) 8 = 4 \<and>
   subscribers_of world_k66 ''k'' = [6, 6] \<and>
   count_list (map fst (invoked (set_twice (call (Suc (Suc 0)) example_subscribers) ''k'' (Num 1) world_k66))) 6 = 4"
  by (simp add: store_eval_defs)

text \<open>
  C8, as amended. Let \<open>k\<close> be a key that is not a property name of \<open>Object.prototype\<close>. Then
  \<open>subscribe(k, fn)\<close> returns normally, whether or not \<open>k\<close> has a stored value; it calls no
  function and leaves the store, the event registry, the console and the queue as they
  were; it appends \<open>fn\<close> to the subscribers of \<open>k\<close>. The \<open>set(k, v)\<close> that follows makes one
  dispatch pass over the earlier subscribers and then \<open>fn\<close>, each called with \<open>v\<close>, until one
  throws. When the bodies of these functions only record analytics, that \<open>set\<close> returns
  normally, \<open>get(k)\<close> is \<open>v\<close>, and the functions called during it, at any depth of nesting, are
  exactly the earlier subscribers and then \<open>fn\<close>, each with \<open>v\<close>: \<open>fn\<close> is called once more than it
  was subscribed before, so exactly once if it was not subscribed to \<open>k\<close> before.
\<close>

theorem subscribe_then_set_dispatches:
  assumes "well_formed w" and "k \<notin> set object_prototype_keys"
  shows "\<exists>w1. state_subscribe k fn w = (None, w1) \<and> invoked w1 = invoked w \<and>
           store w1 = store w \<and> store_proto w1 = store_proto w \<and> events w1 = events w \<and>
           console w1 = console w \<and> qarrays w1 = qarrays w \<and>
           subscribers_of w1 k = subscribers_of w k @ [fn] \<and>
           state_set (call n H) k v w1 =
             snapshot_dispatch (call n H) (subscribers_of w k @ [fn]) v
               (utils_log [LStr ''State:'', LStr k, LVal v] (store_write k v w1)) \<and>
           ((\<forall>g\<in>set (subscribers_of w k @ [fn]). list_all logs_only (H g v)) \<longrightarrow>
              (\<exists>w2. state_set (call (Suc n) H) k v w1 =
                       (None, map (\<lambda>g. (g, v)) (subscribers_of w k @ [fn]), w2) \<and>
                    state_get k w2 = Data v \<and>
                    invoked w2 = invoked w @ map (\<lambda>g. (g, v)) (subscribers_of w k @ [fn]) \<and>
                    count_list (map fst (drop (length (invoked w)) (invoked w2))) fn =
                      Suc (count_list (subscribers_of w k) fn) \<and>
                    (fn \<notin> set (subscribers_of w k) \<longrightarrow>
                       count_list (map fst (drop (length (invoked w)) (invoked w2))) fn = 1)))"
proof -
  from subscribe_returns[OF assms(2), of fn w] obtain w1 where
    e: "state_subscribe k fn w = (None, w1)" and i1: "invoked w1 = invoked w"
    and fr: "store w1 = store w \<and> store_proto w1 = store_proto w \<and> events w1 = events w \<and>
           console w1 = console w \<and> qarrays w1 = qarrays w"
    and so1: "subscribers_of w1 k = subscribers_of w k @ [fn]" by blast
  have wf1: "well_formed w1"
    using state_subscribe_evolves[OF e] assms(1) by (simp add: evolves_def)
  have ne1: "subscribers_of w1 k \<noteq> []" using so1 by simp
  have a: "state_set (call n H) k v w1 =
             snapshot_dispatch (call n H) (subscribers_of w k @ [fn]) v
               (utils_log [LStr ''State:'', LStr k, LVal v] (store_write k v w1))"
    using set_refines_subscribers[OF wf1 ne1, of n H v] so1 by simp
  have b: "\<exists>w2. state_set (call (Suc n) H) k v w1 =
                       (None, map (\<lambda>g. (g, v)) (subscribers_of w k @ [fn]), w2) \<and>
                    state_get k w2 = Data v \<and>
                    invoked w2 = invoked w @ map (\<lambda>g. (g, v)) (subscribers_of w k @ [fn]) \<and>
                    count_list (map fst (drop (length (invoked w)) (invoked w2))) fn =
                      Suc (count_list (subscribers_of w k) fn) \<and>
                    (fn \<notin> set (subscribers_of w k) \<longrightarrow>
                       count_list (map fst (drop (length (invoked w)) (invoked w2))) fn = 1)"
    if q: "\<forall>g\<in>set (subscribers_of w k @ [fn]). list_all logs_only (H g v)"
  proof -
    have q1: "\<forall>g\<in>set (subscribers_of w1 k). list_all logs_only (H g v)" using q so1 by simp
    from set_logs_only[where H=H and v=v and w=w1 and k=k and n=n, OF wf1 ne1 q1] obtain w2 where
      s2: "state_set (call (Suc n) H) k v w1 = (None, map (\<lambda>g. (g, v)) (subscribers_of w1 k), w2)"
      and g2: "state_get k w2 = Data v"
      and i2: "invoked w2 = invoked w1 @ map (\<lambda>g. (g, v)) (subscribers_of w1 k)" by blast
    have i2': "invoked w2 = invoked w @ map (\<lambda>g. (g, v)) (subscribers_of w k @ [fn])"
      using i2 i1 so1 by simp
    have d: "drop (length (invoked w)) (invoked w2) = map (\<lambda>g. (g, v)) (subscribers_of w k @ [fn])"
      using i2' by simp
    have c: "count_list (map fst (drop (length (invoked w)) (invoked w2))) fn =
                      Suc (count_list (subscribers_of w k) fn)"
      unfolding d count_list_map_fst_pair by simp
    have c1: "count_list (map fst (drop (length (invoked w)) (invoked w2))) fn = 1"
      if "fn \<notin> set (subscribers_of w k)"
      using c that by (simp add: count_list_0_iff)
    show ?thesis using s2 g2 i2' c c1 so1 by (auto simp del: call.simps)
  qed
  show ?thesis using e i1 fr so1 a b by blast
qed

text \<open>
  The theorem of C8 at \<open>subscribe("k", f6)\<close> after \<open>subscribe("k", f1)\<close>: \<open>set("k", "dark")\<close> calls
  \<open>f1\<close> and then \<open>f6\<close>, each once.
\<close>

theorem subscribe_then_set_dispatches_witness:
  "well_formed world_k1 \<and> ''k'' \<notin> set object_prototype_keys \<and>
   subscribers_of world_k1 ''k'' = [1] \<and>
   list_all logs_only (example_subscribers 1 (Str ''dark'')) \<and>
   list_all logs_only (example_subscribers 6 (Str ''dark'')) \<and>
   fst (state_subscribe ''k'' 6 world_k1) = None \<and>
   invoked (snd (state_subscribe ''k'' 6 world_k1)) = [] \<and>
   subscribers_of (snd (state_subscribe ''k'' 6 world_k1)) ''k'' = [1, 6] \<and>
   invoked (snd (snd (state_set (call (Suc 0) example_subscribers) ''k'' (Str ''dark'')
      (snd (state_subscribe ''k'' 6 world_k1))))) = [(1, Str ''dark''), (6, Str ''dark'')] \<and>
   count_list (map fst (invoked (snd (snd (state_set (call (Suc 0) example_subscribers) ''k'' (Str ''dark'')
      (snd (state_subscribe ''k'' 6 world_k1))))))) 6 = 1"
proof -
  have h1: "well_formed world_k1" by (rule well_formed_world_k1)
  have h2: "''k'' \<notin> set object_prototype_keys" by (simp add: object_prototype_keys_def)
  have h3: "subscribers_of world_k1 ''k'' = [1]" by (simp add: store_eval_defs world_k1_def)
  have h4: "list_all logs_only (example_subscribers 1 (Str ''dark''))" by (simp add: example_subscribers_def)
  have h5: "list_all logs_only (example_subscribers 6 (Str ''dark''))" by (simp add: example_subscribers_def)
  have h6: "\<forall>g\<in>set (subscribers_of world_k1 ''k'' @ [6]). list_all logs_only (example_subscribers g (Str ''dark''))"
    using h3 h4 h5 by simp
  have i0: "invoked world_k1 = []" by (simp add: store_eval_defs world_k1_def)
  from subscribe_then_set_dispatches[OF h1 h2, of 6 0 example_subscribers "Str ''dark''"] h6 obtain w1 w2 where
    e: "state_subscribe ''k'' 6 world_k1 = (None, w1)" and i1: "invoked w1 = invoked world_k1"
    and so1: "subscribers_of w1 ''k'' = subscribers_of world_k1 ''k'' @ [6]"
    and s2: "state_set (call (Suc 0) example_subscribers) ''k'' (Str ''dark'') w1 =
               (None, map (\<lambda>g. (g, Str ''dark'')) (subscribers_of world_k1 ''k'' @ [6]), w2)"
    and i2: "invoked w2 = invoked world_k1 @ map (\<lambda>g. (g, Str ''dark'')) (subscribers_of world_k1 ''k'' @ [6])"
    by blast
  have a: "fst (state_subscribe ''k'' 6 world_k1) = None" using e by simp
  have b: "invoked (snd (state_subscribe ''k'' 6 world_k1)) = []" using e i1 i0 by simp
  have c: "subscribers_of (snd (state_subscribe ''k'' 6 world_k1)) ''k'' = [1, 6]" using e so1 h3 by simp
  have d: "invoked (snd (snd (state_set (call (Suc 0) example_subscribers) ''k'' (Str ''dark'')
      (snd (state_subscribe ''k'' 6 world_k1))))) = [(1, Str ''dark''), (6, Str ''dark'')]"
    using e s2 i2 i0 h3 by (simp del: call.simps)
  have f: "count_list (map fst (invoked (snd (snd (state_set (call (Suc 0) example_subscribers) ''k'' (Str ''dark'')
      (snd (state_subscribe ''k'' 6 world_k1))))))) 6 = 1"
    unfolding d by simp
  show ?thesis using h1 h2 h3 h4 h5 a b c d f by blast
qed

text \<open>
  C8 without the amendment does not hold of every subscription. \<open>subscribe("k", f6)\<close> when
  \<open>f6\<close> is subscribed to \<open>k\<close> already: the next \<open>set("k", 1)\<close> calls \<open>f6\<close> twice.
  \<open>subscribe("k", f6)\<close> after \<open>subscribe("k", f4)\<close>, where \<open>f4\<close> throws: the next \<open>set("k", 1)\<close>
  throws and does not call \<open>f6\<close>.
\<close>

theorem subscribe_then_set_not_once:
  "fst (state_subscribe ''k'' 6 world_k6) = None \<and>
   count_list (map fst (invoked (snd (snd (state_set (call (Suc 0) example_subscribers) ''k'' (Num 1)
      (snd (state_subscribe ''k'' 6 world_k6))))))) 6 = 2 \<and>
   fst (state_subscribe ''k'' 6 world_k4) = None \<and>
   fst (state_set (call (Suc 0) example_subscribers) ''k'' (Num 1)
      (snd (state_subscribe ''k'' 6 world_k4))) = Some (Thrown (Str ''boom'')) \<and>
   count_list (map fst (invoked (snd (snd (state_set (call (Suc 0) example_subscribers) ''k'' (Num 1)
      (snd (state_subscribe ''k'' 6 world_k4))))))) 6 = 0"
  by (simp add: store_eval_defs)

text \<open>
  C9 at the topic \<open>constructor\<close>, which has no registrations: \<open>events["constructor"]\<close> is the
  inherited function \<open>Object\<close>, which is truthy and has no \<open>filter\<close>, so \<open>off\<close> throws a
  \<open>TypeError\<close> where the claim promises a no-op. For every topic that is not a property
  name of \<open>Object.prototype\<close> the claim holds: see \<open>off_removes_every_occurrence\<close>,
  \<open>emit_after_off\<close>, \<open>off_other_topics\<close> and \<open>off_unknown_topic\<close>.
\<close>

theorem off_constructor_topic_throws:
  "events_off ''constructor'' h init_world = (Some TypeError, init_world)"
  by (simp add: eval_defs)

text \<open>
  C10. \<open>getQueue\<close> returns a new array object with the queue's contents in order. Whatever
  the caller does to the elements of that array (\<open>f\<close> is any rearrangement), the queue keeps
  its contents, and after any further \<open>log\<close> calls a later \<open>getQueue\<close> returns what it would
  have returned without the mutation. (The copy is shallow: the claim is about the
  sequence, not about the record objects in it.)
\<close>

theorem getQueue_independent_copy:
  assumes "well_formed w"
  shows "(case analytics_getQueue w of (r, w1) \<Rightarrow>
            qarrays w1 r = qarrays w (queue w) \<and>
            r \<noteq> queue w1 \<and>
            qarrays w1 (queue w1) = qarrays w (queue w) \<and>
            (\<forall>f. qarrays (array_mutate r f w1) (queue (array_mutate r f w1)) = qarrays w (queue w) \<and>
                 (\<forall>cs. (case analytics_getQueue (log_all cs (array_mutate r f w1)) of (r2, w2) \<Rightarrow> qarrays w2 r2) =
                       (case analytics_getQueue (log_all cs w1) of (r2, w2) \<Rightarrow> qarrays w2 r2))))"
proof -
  have q: "queue w < next_ref w" using assms by (simp add: well_formed_def)
  obtain r w1 where g: "analytics_getQueue w = (r, w1)" by (cases "analytics_getQueue w")
  then have r: "r = next_ref w" and w1: "w1 = w\<lparr>next_ref := Suc (next_ref w), qarrays := (qarrays w)(next_ref w := qarrays w (queue w))\<rparr>"
    by (auto simp add: analytics_getQueue_def)
  have ne: "r \<noteq> queue w1" using q r w1 by simp
  have c1: "qarrays w1 r = qarrays w (queue w)" using r w1 by simp
  have c2: "qarrays w1 (queue w1) = qarrays w (queue w)" using q r w1 by simp
  have c3: "qarrays (array_mutate r f w1) (queue (array_mutate r f w1)) = qarrays w (queue w)" for f
    using c2 ne by (simp add: array_mutate_def)
  have c4: "(case analytics_getQueue (log_all cs (array_mutate r f w1)) of (r2, w2) \<Rightarrow> qarrays w2 r2) =
            (case analytics_getQueue (log_all cs w1) of (r2, w2) \<Rightarrow> qarrays w2 r2)" for f cs
  proof -
    have "log_all cs (array_mutate r f w1) = array_mutate r f (log_all cs w1)"
      using log_all_array_mutate[OF ne] .
    moreover have "queue (log_all cs w1) \<noteq> r" using ne by simp
    ultimately show ?thesis by (simp add: analytics_getQueue_def array_mutate_def)
  qed
  show ?thesis using g ne c1 c2 c3 c4 by simp
qed

theorem getQueue_independent_copy_witness:
  "well_formed (analytics_log ''a'' Undefined 1 ''/'' init_world) \<and>
   (case analytics_getQueue (analytics_log ''a'' Undefined 1 ''/'' init_world) of (r, w1) \<Rightarrow>
      qarrays w1 r = [build_event ''a'' Undefined 1 ''/''] \<and>
      r \<noteq> queue w1 \<and>
      qarrays (array_mutate r rev w1) (queue (array_mutate r rev w1)) = [build_event ''a'' Undefined 1 ''/''] \<and>
      (case analytics_getQueue (log_all [(''b'', Null, 2, ''/'')] (array_mutate r (\<lambda>q. []) w1)) of
         (r2, w2) \<Rightarrow> qarrays w2 r2) =
      (case analytics_getQueue (log_all [(''b'', Null, 2, ''/'')] w1) of (r2, w2) \<Rightarrow> qarrays w2 r2))"
proof -
  have h: "well_formed (analytics_log ''a'' Undefined 1 ''/'' init_world)"
    by (simp add: well_formed_def analytics_log_def utils_log_def init_world_def Let_def)
  show ?thesis
    using h getQueue_independent_copy[OF h]
    by (simp add: analytics_getQueue_def analytics_log_def utils_log_def init_world_def Let_def
        MAX_QUEUE_def array_mutate_def)
qed

end
